theory Spec2Isabelle
  imports Complex_Main "HOL-Library.Word" "HOL-Library.Multiset" "HOL-Library.Log_Nat"
begin

section \<open>JavaScript values and operators used by \<open>src/App.tsx\<close>\<close>

text \<open>
  The elements of a \<open>Uint8ClampedArray\<close> (\<open>ImageData.data\<close>) are bytes. A read past the
  end of the array yields \<open>undefined\<close>, modelled as \<open>None\<close>.
\<close>

type_synonym u8 = "8 word"

definition js_index :: "'a list \<Rightarrow> nat \<Rightarrow> 'a option" where
  "js_index xs i = (if i < length xs then Some (xs ! i) else None)"

text \<open>
  \<open>x << n\<close>: the left operand is converted to a 32-bit integer, the shift count is taken
  modulo 32, the result is read as a signed 32-bit integer.
\<close>

definition js_shl :: "int \<Rightarrow> nat \<Rightarrow> int" where
  "js_shl x n = sint (push_bit (n mod 32) (word_of_int x :: 32 word))"

text \<open>\<open>ToInt32\<close> of an array element: \<open>undefined\<close> becomes \<open>0\<close>.\<close>

definition toInt32_elem :: "u8 option \<Rightarrow> int" where
  "toInt32_elem v = (case v of None \<Rightarrow> 0 | Some w \<Rightarrow> uint w)"

text \<open>\<open>Number.prototype.toString(16)\<close> on an integer: lower-case digits, no padding.\<close>

definition hexDigit :: "nat \<Rightarrow> char" where
  "hexDigit d = ''0123456789abcdef'' ! d"

fun digits16 :: "nat \<Rightarrow> string" where
  "digits16 n = (if n < 16 then [hexDigit n] else digits16 (n div 16) @ [hexDigit (n mod 16)])"

declare digits16.simps [simp del]

definition toString16 :: "int \<Rightarrow> string" where
  "toString16 n = (if n < 0 then CHR ''-'' # digits16 (nat (- n)) else digits16 (nat n))"

text \<open>
  The template literal of lines 56--58 and 141--148:
  \<^verbatim>\<open>`#${((1 << 24) + (r << 16) + (g << 8) + b).toString(16).slice(1)}`\<close>.
  The shifts convert \<open>undefined\<close> to \<open>0\<close>; the final \<open>+ b\<close> with \<open>b\<close> undefined gives
  \<open>NaN\<close>, whose \<open>toString(16)\<close> is \<open>NaN\<close>.
\<close>

definition hexString :: "u8 option \<Rightarrow> u8 option \<Rightarrow> u8 option \<Rightarrow> string" where
  "hexString r g b =
     CHR ''#'' # drop 1
       (case b of
          None \<Rightarrow> ''NaN''
        | Some bv \<Rightarrow>
            toString16 (js_shl 1 24 + js_shl (toInt32_elem r) 16 + js_shl (toInt32_elem g) 8 + uint bv))"

text \<open>The same literal when all three channels are present.\<close>

definition rgbHex :: "u8 \<Rightarrow> u8 \<Rightarrow> u8 \<Rightarrow> string" where
  "rgbHex r g b = hexString (Some r) (Some g) (Some b)"

section \<open>JavaScript numbers\<close>

text \<open>
  A JavaScript number is an IEEE 754 double. A finite double is modelled by the rational it
  denotes, and every arithmetic operation of the code rounds its exact result to the nearest
  double, ties to even: 53 significant bits, exponents down to the subnormal range.
  \<open>ilog2 q\<close> is the exponent of \<open>q > 0\<close>, the integer \<open>L\<close> with
  \<open>2 ^ L \<le> q < 2 ^ (L + 1)\<close>. A result of magnitude \<open>2 ^ 1024\<close> or more is an infinity.
  Counts and lengths are whole numbers below \<open>2 ^ 53\<close>, which are doubles.
\<close>

definition round_half_even :: "rat \<Rightarrow> int" where
  "round_half_even q =
     (let f = \<lfloor>q\<rfloor>; d = q - of_int f
      in if d < 1 / 2 then f else if 1 / 2 < d then f + 1 else if even f then f else f + 1)"

definition ilog2 :: "rat \<Rightarrow> int" where
  "ilog2 q =
     (case quotient_of q of
        (a, b) \<Rightarrow> (let k = bitlen a - bitlen b in if 2 powi k \<le> q then k else k - 1))"

definition round53 :: "rat \<Rightarrow> rat" where
  "round53 q =
     (if q = 0 then 0
      else let e = max (ilog2 \<bar>q\<bar> - 52) (- 1074);
               m = round_half_even (\<bar>q\<bar> / 2 powi e)
           in sgn q * of_int m * 2 powi e)"

definition finite_double :: "rat \<Rightarrow> bool" where
  "finite_double r = (\<bar>r\<bar> < 2 ^ 1024)"

text \<open>The unit roundoff: the relative error of one rounding is at most \<open>2 ^ (-53)\<close>.\<close>

definition unit_roundoff :: rat where
  "unit_roundoff = 1 / 2 ^ 53"

text \<open>
  The operators of lines 134--140 on numbers that may not be finite: \<open>None\<close> stands for
  \<open>NaN\<close>, \<open>Infinity\<close> and \<open>-Infinity\<close>. A difference of two finite numbers is kept as a
  rational, infinite when its magnitude is \<open>2 ^ 1024\<close> or more. Division by zero yields a
  number that is not finite, and so does a product with one.
\<close>

definition js_sub :: "rat \<Rightarrow> rat \<Rightarrow> rat" where
  "js_sub a b = round53 (a - b)"

definition js_div :: "rat \<Rightarrow> rat \<Rightarrow> rat option" where
  "js_div a b =
     (if b = 0 then None
      else if finite_double (round53 (a / b)) then Some (round53 (a / b)) else None)"

definition js_mul :: "rat \<Rightarrow> rat option \<Rightarrow> rat option" where
  "js_mul a s =
     (if \<not> finite_double a then None
      else case s of
        None \<Rightarrow> None
      | Some q \<Rightarrow> (if finite_double (round53 (a * q)) then Some (round53 (a * q)) else None))"

section \<open>The dominant colour extractor (\<open>extractColors\<close>, lines 37--71)\<close>

record Color =
  hex :: string
  percentage :: rat

text \<open>
  \<open>Map<string, number>\<close>: iteration follows the order of first insertion, and \<open>set\<close> on
  a key that is present keeps the key's position. Counts are whole numbers.
\<close>

type_synonym color_map = "(string \<times> nat) list"

fun map_get :: "color_map \<Rightarrow> string \<Rightarrow> nat option" where
  "map_get [] k = None"
| "map_get ((k', v) # m) k = (if k' = k then Some v else map_get m k)"

fun map_set :: "color_map \<Rightarrow> string \<Rightarrow> nat \<Rightarrow> color_map" where
  "map_set [] k v = [(k, v)]"
| "map_set ((k', v') # m) k v = (if k' = k then (k, v) # m else (k', v') # map_set m k v)"

text \<open>\<open>colorMap.get(hex) || 0\<close>: \<open>undefined\<close> and \<open>0\<close> both give \<open>0\<close>.\<close>

definition get_or_0 :: "color_map \<Rightarrow> string \<Rightarrow> nat" where
  "get_or_0 m k = (case map_get m k of None \<Rightarrow> 0 | Some c \<Rightarrow> c)"

text \<open>
  The \<open>for\<close> loop of lines 52--60 over the two objects it touches; \<open>i\<close> advances by 4 and
  only \<open>colorMap\<close> is written.
\<close>

record extract_state =
  imageData :: "u8 list"
  colorMap :: color_map

definition loop_body :: "nat \<Rightarrow> extract_state \<Rightarrow> extract_state" where
  "loop_body i s =
     (let r = js_index (imageData s) i;
          g = js_index (imageData s) (i + 1);
          b = js_index (imageData s) (i + 2);
          hex = hexString r g b
      in s\<lparr>colorMap := map_set (colorMap s) hex (get_or_0 (colorMap s) hex + 1)\<rparr>)"

function extract_loop :: "nat \<Rightarrow> extract_state \<Rightarrow> extract_state" where
  "extract_loop i s =
     (if i < length (imageData s) then extract_loop (i + 4) (loop_body i s) else s)"
  by pat_completeness auto
termination
  by (relation "measure (\<lambda>(i, s). length (imageData s) - i)") (auto simp: loop_body_def Let_def)

declare extract_loop.simps [simp del]

text \<open>
  \<open>Array.prototype.sort\<close> with a comparator: a stable sort (ECMAScript 2019); \<open>a\<close> is
  placed before \<open>b\<close> when \<open>cmp a b < 0\<close>, and elements that compare equal keep their
  order.
\<close>

fun js_insert :: "('a \<Rightarrow> 'a \<Rightarrow> rat) \<Rightarrow> 'a \<Rightarrow> 'a list \<Rightarrow> 'a list" where
  "js_insert cmp x [] = [x]"
| "js_insert cmp x (y # ys) = (if cmp x y \<le> 0 then x # y # ys else y # js_insert cmp x ys)"

definition js_sort :: "('a \<Rightarrow> 'a \<Rightarrow> rat) \<Rightarrow> 'a list \<Rightarrow> 'a list" where
  "js_sort cmp xs = foldr (js_insert cmp) xs []"

text \<open>
  The comparator of line 67, \<open>(a, b) => b.percentage - a.percentage\<close>. The sort uses its
  sign only, and the rounded difference of two doubles has the sign of the exact one, so the
  exact difference is kept.
\<close>

definition by_percentage_desc :: "Color \<Rightarrow> Color \<Rightarrow> rat" where
  "by_percentage_desc a b = percentage b - percentage a"

text \<open>
  Lines 49--50: \<open>colorMap\<close> starts empty, \<open>totalPixels = imageData.length / 4\<close>. The
  percentage of line 65 is \<open>(count / totalPixels) * 100\<close>, a quotient and a product of
  doubles, each rounded. It is computed only for an entry of the map, and the map has an
  entry only when \<open>totalPixels\<close> is not zero.
\<close>

definition totalPixels :: "u8 list \<Rightarrow> rat" where
  "totalPixels d = round53 (of_nat (length d) / 4)"

definition percentage_of :: "nat \<Rightarrow> rat \<Rightarrow> rat" where
  "percentage_of cnt tp = round53 (round53 (of_nat cnt / tp) * 100)"

definition final_colorMap :: "u8 list \<Rightarrow> color_map" where
  "final_colorMap d = colorMap (extract_loop 0 \<lparr>imageData = d, colorMap = []\<rparr>)"

text \<open>Lines 62--66: the entries in map order, each with its percentage.\<close>

definition histogram :: "u8 list \<Rightarrow> Color list" where
  "histogram d =
     map (\<lambda>(h, count). \<lparr>hex = h, percentage = percentage_of count (totalPixels d)\<rparr>)
       (final_colorMap d)"

text \<open>
  Lines 49--68: \<open>sortedColors\<close>, the value handed to \<open>setColors\<close>, as a function of the
  array \<open>imageData\<close>.
\<close>

definition extractColors :: "u8 list \<Rightarrow> Color list" where
  "extractColors d = take 6 (js_sort by_percentage_desc (histogram d))"

text \<open>
  Lines 37--48 and 70: the whole callback. The canvas is a \<open>width \<times> height\<close> bitmap of RGBA
  samples, row-major, four bytes each. The callback returns at once when the canvas or its
  2d context is null (\<open>canvasRef\<close> is \<open>None\<close>); otherwise it resizes the canvas to the
  image, draws the image on it and reads the whole bitmap back. \<open>bitmap\<close> is the image's
  samples as the canvas holds them after \<open>drawImage\<close>. \<open>getImageData\<close> is a function of
  the browser, modelled after the HTML standard: it raises \<open>IndexSizeError\<close> when the width
  or the height of the rectangle is zero. The first component of the result is the new value
  of the state \<open>colors\<close>.
\<close>

record canvas =
  width :: nat
  height :: nat
  data :: "u8 list"

record imageElement =
  width :: nat
  height :: nat
  bitmap :: "u8 list"

datatype dom_exception = TypeError | IndexSizeError

definition getImageData_canvas :: "canvas \<Rightarrow> dom_exception + u8 list" where
  "getImageData_canvas cv =
     (if canvas.width cv = 0 \<or> canvas.height cv = 0 then Inl IndexSizeError else Inr (data cv))"

definition extractColors_from_image ::
  "Color list \<Rightarrow> canvas option \<Rightarrow> imageElement \<Rightarrow> dom_exception + Color list \<times> canvas option" where
  "extractColors_from_image colors canvasRef img =
     (case canvasRef of
        None \<Rightarrow> Inr (colors, None)
      | Some cv \<Rightarrow>
          (let cv' = cv\<lparr>canvas.width := imageElement.width img,
                         canvas.height := imageElement.height img,
                         data := bitmap img\<rparr>
           in case getImageData_canvas cv' of
                Inl ex \<Rightarrow> Inl ex
              | Inr bytes \<Rightarrow> Inr (extractColors bytes, Some cv')))"

section \<open>The point sampler (\<open>getColorAtPoint\<close>, lines 125--155)\<close>

text \<open>
  The sampler reads the canvas that \<open>extractColors\<close> has drawn. A canvas is valid when its
  array holds four bytes for each of its \<open>width \<times> height\<close> pixels.
\<close>

definition valid_canvas :: "canvas \<Rightarrow> bool" where
  "valid_canvas cv = (length (data cv) = 4 * (canvas.width cv * canvas.height cv))"

record DOMRect =
  left :: rat
  top :: rat
  width :: rat
  height :: rat

record HTMLImageElement =
  naturalWidth :: nat
  naturalHeight :: nat
  boundingClientRect :: DOMRect

record MouseEvent =
  clientX :: rat
  clientY :: rat

record CustomColor =
  hex :: string
  timestamp :: nat

record app_state =
  isPicking :: bool
  pickedColor :: "string option"
  customColors :: "CustomColor list"

text \<open>
  \<open>getImageData(sx, sy, 1, 1)\<close>, the call of line 140, after the HTML standard. The
  arguments are declared
  \<open>[EnforceRange] long\<close>: a non-finite number raises \<open>TypeError\<close>, a finite one is
  truncated towards zero and raises \<open>TypeError\<close> outside the 32-bit signed range. A pixel
  outside the bitmap is transparent black.
\<close>

definition integerPart :: "rat \<Rightarrow> int" where
  "integerPart q = (if q < 0 then \<lceil>q\<rceil> else \<lfloor>q\<rfloor>)"

definition to_long :: "rat option \<Rightarrow> dom_exception + int" where
  "to_long v =
     (case v of
        None \<Rightarrow> Inl TypeError
      | Some q \<Rightarrow>
          (if integerPart q < - 2147483648 \<or> 2147483647 < integerPart q then Inl TypeError
           else Inr (integerPart q)))"

definition getImageData :: "canvas \<Rightarrow> rat option \<Rightarrow> rat option \<Rightarrow> dom_exception + u8 list" where
  "getImageData cv sx sy =
     (case to_long sx of
        Inl ex \<Rightarrow> Inl ex
      | Inr x \<Rightarrow>
          (case to_long sy of
             Inl ex \<Rightarrow> Inl ex
           | Inr y \<Rightarrow>
               Inr (if 0 \<le> x \<and> x < int (canvas.width cv) \<and> 0 \<le> y \<and> y < int (canvas.height cv)
                    then take 4 (drop (4 * (nat y * canvas.width cv + nat x)) (data cv))
                    else [0, 0, 0, 0])))"

text \<open>
  \<open>getColorAtPoint\<close>. \<open>canvasRef\<close> is \<open>None\<close> when \<open>canvasRef.current\<close> or its 2d context
  is null, \<open>imageRef\<close> when \<open>imageRef.current\<close> is null; \<open>now\<close> is the value of
  \<open>Date.now()\<close>. An early \<open>return\<close> leaves the state as it is; an exception of
  \<open>getImageData\<close> leaves the handler.
\<close>

definition getColorAtPoint ::
  "app_state \<Rightarrow> canvas option \<Rightarrow> HTMLImageElement option \<Rightarrow> MouseEvent \<Rightarrow> nat
     \<Rightarrow> dom_exception + app_state" where
  "getColorAtPoint st canvasRef imageRef e now =
     (if \<not> isPicking st then Inr st
      else case canvasRef of
        None \<Rightarrow> Inr st
      | Some cv \<Rightarrow>
          (case imageRef of
             None \<Rightarrow> Inr st
           | Some img \<Rightarrow>
               (let rect = boundingClientRect img;
                    x = js_sub (clientX e) (left rect);
                    y = js_sub (clientY e) (top rect);
                    scaleX = js_div (of_nat (naturalWidth img)) (DOMRect.width rect);
                    scaleY = js_div (of_nat (naturalHeight img)) (DOMRect.height rect)
                in case getImageData cv (js_mul x scaleX) (js_mul y scaleY) of
                     Inl ex \<Rightarrow> Inl ex
                   | Inr pixel \<Rightarrow>
                       (let h = hexString (js_index pixel 0) (js_index pixel 1) (js_index pixel 2)
                        in Inr (st\<lparr>isPicking := False,
                                   pickedColor := Some h,
                                   customColors := \<lparr>hex = h, timestamp = now\<rparr> # customColors st\<rparr>)))))"

section \<open>Notions used to state the properties\<close>

text \<open>
  The RGB samples of a buffer in row-major scan order, one per four bytes, the alpha byte
  dropped; and the key the extractor computes for a sample.
\<close>

fun pixels :: "u8 list \<Rightarrow> (u8 \<times> u8 \<times> u8) list" where
  "pixels (r # g # b # a # rest) = (r, g, b) # pixels rest"
| "pixels _ = []"

definition pixelHex :: "u8 \<times> u8 \<times> u8 \<Rightarrow> string" where
  "pixelHex p = (case p of (r, g, b) \<Rightarrow> rgbHex r g b)"

text \<open>The 24-bit value of a sample, and its digits in base 16 padded to a fixed width.\<close>

definition rgbValue :: "u8 \<Rightarrow> u8 \<Rightarrow> u8 \<Rightarrow> nat" where
  "rgbValue r g b = unat r * 65536 + unat g * 256 + unat b"

fun hexpad :: "nat \<Rightarrow> nat \<Rightarrow> string" where
  "hexpad 0 v = []"
| "hexpad (Suc k) v = hexpad k (v div 16) @ [hexDigit (v mod 16)]"

text \<open>
  The keys the loop computes, in the order it computes them; one step of the count; the
  distinct elements of a list in the order of their first occurrence.
\<close>

fun scan_keys :: "u8 list \<Rightarrow> string list" where
  "scan_keys [] = []"
| "scan_keys (r # rest) = hexString (Some r) (js_index rest 0) (js_index rest 1) # scan_keys (drop 3 rest)"

definition bump :: "color_map \<Rightarrow> string \<Rightarrow> color_map" where
  "bump m k = map_set m k (get_or_0 m k + 1)"

definition firsts :: "'a list \<Rightarrow> 'a list" where
  "firsts ks = rev (remdups (rev ks))"

text \<open>\<open>x\<close> occurs in the list at a position before an occurrence of \<open>y\<close>.\<close>

definition before :: "'a \<Rightarrow> 'a \<Rightarrow> 'a list \<Rightarrow> bool" where
  "before x y l = (\<exists>as bs cs. l = as @ x # bs @ y # cs)"

text \<open>
  The contract of \<open>Array.prototype.sort\<close>, in the words of ECMAScript: the result is a
  permutation of the input, ordered by the comparator, and elements that compare equal keep
  their relative order.
\<close>

definition stable_sorted_by :: "('a \<Rightarrow> 'a \<Rightarrow> rat) \<Rightarrow> 'a list \<Rightarrow> 'a list \<Rightarrow> bool" where
  "stable_sorted_by cmp xs ys =
     (mset ys = mset xs
      \<and> sorted_wrt (\<lambda>a b. cmp a b \<le> 0) ys
      \<and> (\<forall>a\<in>set xs. filter (\<lambda>b. cmp a b = 0) ys = filter (\<lambda>b. cmp a b = 0) xs))"

text \<open>
  The sampler's inputs as the specification names them: the display coordinates of the
  click relative to the rendered image and the rendered size; the four bytes of the buffer's
  pixel \<open>(x, y)\<close>; and the state after a pick of colour \<open>h\<close> at time \<open>now\<close>.
\<close>

definition displayX :: "HTMLImageElement \<Rightarrow> MouseEvent \<Rightarrow> rat" where
  "displayX img e = js_sub (clientX e) (left (boundingClientRect img))"

definition displayY :: "HTMLImageElement \<Rightarrow> MouseEvent \<Rightarrow> rat" where
  "displayY img e = js_sub (clientY e) (top (boundingClientRect img))"

definition displayWidth :: "HTMLImageElement \<Rightarrow> rat" where
  "displayWidth img = DOMRect.width (boundingClientRect img)"

definition displayHeight :: "HTMLImageElement \<Rightarrow> rat" where
  "displayHeight img = DOMRect.height (boundingClientRect img)"

text \<open>The numbers passed to \<open>getImageData\<close>, \<open>x * scaleX\<close> and \<open>y * scaleY\<close>.\<close>

definition sourceX :: "HTMLImageElement \<Rightarrow> MouseEvent \<Rightarrow> rat option" where
  "sourceX img e = js_mul (displayX img e) (js_div (of_nat (naturalWidth img)) (displayWidth img))"

definition sourceY :: "HTMLImageElement \<Rightarrow> MouseEvent \<Rightarrow> rat option" where
  "sourceY img e = js_mul (displayY img e) (js_div (of_nat (naturalHeight img)) (displayHeight img))"

definition pixel_at :: "canvas \<Rightarrow> nat \<Rightarrow> nat \<Rightarrow> u8 list" where
  "pixel_at cv x y = take 4 (drop (4 * (y * canvas.width cv + x)) (data cv))"

definition picked :: "app_state \<Rightarrow> string \<Rightarrow> nat \<Rightarrow> app_state" where
  "picked st h now =
     st\<lparr>isPicking := False, pickedColor := Some h,
        customColors := \<lparr>CustomColor.hex = h, timestamp = now\<rparr> # customColors st\<rparr>"

text \<open>
  The specification's coordinate mapping, \<open>floor(displayX * bufferWidth / displayWidth)\<close>,
  and its clamping policy: the source coordinate clamped to \<open>[0, size - 1]\<close>, the pixel
  there formatted as in the extractor.
\<close>

definition spec_src :: "rat \<Rightarrow> nat \<Rightarrow> rat \<Rightarrow> int" where
  "spec_src displayCoord bufferSize displaySize = \<lfloor>displayCoord * of_nat bufferSize / displaySize\<rfloor>"

definition clamp_coord :: "int \<Rightarrow> nat \<Rightarrow> nat" where
  "clamp_coord v n = nat (max 0 (min v (int n - 1)))"

definition spec_sampleAt_clamped :: "canvas \<Rightarrow> rat \<Rightarrow> rat \<Rightarrow> rat \<Rightarrow> rat \<Rightarrow> string" where
  "spec_sampleAt_clamped buffer dispX dispY dispWidth dispHeight =
     (let srcX = clamp_coord (spec_src dispX (canvas.width buffer) dispWidth) (canvas.width buffer);
          srcY = clamp_coord (spec_src dispY (canvas.height buffer) dispHeight) (canvas.height buffer);
          px = pixel_at buffer srcX srcY
      in rgbHex (px ! 0) (px ! 1) (px ! 2))"

text \<open>
  The specification's two admissible policies for a pick: the colour of the clamped pixel is
  picked, or the call fails.
\<close>

definition spec_clamp_or_reject ::
  "app_state \<Rightarrow> canvas \<Rightarrow> HTMLImageElement \<Rightarrow> MouseEvent \<Rightarrow> nat \<Rightarrow> bool" where
  "spec_clamp_or_reject st cv img e now =
     (getColorAtPoint st (Some cv) (Some img) e now =
        Inr (picked st
          (spec_sampleAt_clamped cv (displayX img e) (displayY img e) (displayWidth img)
             (displayHeight img)) now)
      \<or> getColorAtPoint st (Some cv) (Some img) e now = Inl TypeError)"

text \<open>Concrete inputs: application states, canvases, rendered images.\<close>

definition picking :: app_state where
  "picking = \<lparr>isPicking = True, pickedColor = None, customColors = []\<rparr>"

definition canvas_3x4 :: canvas where
  "canvas_3x4 = \<lparr>canvas.width = 3, height = 4, data = replicate 44 0 @ [10, 20, 30, 255]\<rparr>"

definition img_3x4 :: HTMLImageElement where
  "img_3x4 = \<lparr>naturalWidth = 3, naturalHeight = 4,
     boundingClientRect = \<lparr>left = 8, top = 16, width = 3, height = 4\<rparr>\<rparr>"

definition canvas_100 :: canvas where
  "canvas_100 = \<lparr>canvas.width = 100, height = 100, data = map of_nat [0..<40000]\<rparr>"

definition img_100_at_50 :: HTMLImageElement where
  "img_100_at_50 = \<lparr>naturalWidth = 100, naturalHeight = 100,
     boundingClientRect = \<lparr>left = 5, top = 7, width = 50, height = 50\<rparr>\<rparr>"

definition canvas_white :: canvas where
  "canvas_white = \<lparr>canvas.width = 1, height = 1, data = [255, 255, 255, 255]\<rparr>"

definition img_1x1 :: HTMLImageElement where
  "img_1x1 = \<lparr>naturalWidth = 1, naturalHeight = 1,
     boundingClientRect = \<lparr>left = 0, top = 0, width = 1, height = 1\<rparr>\<rparr>"

definition img_collapsed :: HTMLImageElement where
  "img_collapsed = \<lparr>naturalWidth = 1, naturalHeight = 1,
     boundingClientRect = \<lparr>left = 0, top = 0, width = 0, height = 0\<rparr>\<rparr>"

text \<open>
  Nine pixels of three colours, with counts 7, 1 and 1; images of zero and of positive area;
  a buffer 30 pixels wide rendered 22 wide; a 1 by 1 buffer rendered at 49 by 49.
\<close>

definition buffer_7_1_1 :: "u8 list" where
  "buffer_7_1_1 =
     [255, 0, 0, 255, 255, 0, 0, 255, 255, 0, 0, 255, 255, 0, 0, 255,
      255, 0, 0, 255, 255, 0, 0, 255, 255, 0, 0, 255,
      0, 255, 0, 255, 0, 0, 255, 255]"

definition image_0x0 :: imageElement where
  "image_0x0 = \<lparr>imageElement.width = 0, height = 0, bitmap = []\<rparr>"

definition image_2x1 :: imageElement where
  "image_2x1 = \<lparr>imageElement.width = 2, height = 1, bitmap = [255, 0, 0, 255, 0, 255, 0, 255]\<rparr>"

definition canvas_30 :: canvas where
  "canvas_30 = \<lparr>canvas.width = 30, height = 1, data = map of_nat [0..<120]\<rparr>"

definition img_30_at_22 :: HTMLImageElement where
  "img_30_at_22 = \<lparr>naturalWidth = 30, naturalHeight = 1,
     boundingClientRect = \<lparr>left = 0, top = 0, width = 22, height = 1\<rparr>\<rparr>"

definition img_1x1_at_49 :: HTMLImageElement where
  "img_1x1_at_49 = \<lparr>naturalWidth = 1, naturalHeight = 1,
     boundingClientRect = \<lparr>left = 0, top = 0, width = 49, height = 49\<rparr>\<rparr>"

section \<open>Rounding to a double\<close>

lemma rhe_bounds: "\<bar>of_int (round_half_even q) - q\<bar> \<le> 1 / 2"
proof -
  have "of_int \<lfloor>q\<rfloor> \<le> q" "q < of_int \<lfloor>q\<rfloor> + 1" by linarith+
  then show ?thesis
    unfolding round_half_even_def Let_def by (auto simp: abs_le_iff)
qed

lemma rhe_of_int [simp]: "round_half_even (of_int n) = n"
  by (simp add: round_half_even_def)

lemma rhe_nonneg: "0 \<le> q \<Longrightarrow> 0 \<le> round_half_even q"
  unfolding round_half_even_def Let_def by auto

lemma powi_Suc: "(2::rat) powi (k + 1) = 2 * 2 powi k"
  by (simp add: power_int_add)

lemma powi_pred: "(2::rat) powi k = 2 * 2 powi (k - 1)"
  using powi_Suc [of "k - 1"] by simp

lemma powi_mono: "k \<le> l \<Longrightarrow> (2::rat) powi k \<le> 2 powi l"
  by (rule power_int_increasing) simp_all

lemma powi_strict_mono: "k < l \<Longrightarrow> (2::rat) powi k < 2 powi l"
  by (rule power_int_strict_increasing) simp_all

lemma powi_lessD: "(2::rat) powi k < 2 powi l \<Longrightarrow> k < l"
proof (rule ccontr)
  assume a: "(2::rat) powi k < 2 powi l" and "\<not> k < l"
  then have "l \<le> k" by simp
  then have "(2::rat) powi l \<le> 2 powi k" by (rule powi_mono)
  with a show False by simp
qed

lemma ilog2_bounds:
  assumes "0 < q"
  shows "2 powi (ilog2 q) \<le> q \<and> q < 2 powi (ilog2 q + 1)"
proof -
  obtain a b where ab: "quotient_of q = (a, b)" by (cases "quotient_of q")
  have b: "0 < b" using ab quotient_of_denom_pos by blast
  have q: "q = of_int a / of_int b" using ab by (rule quotient_of_div)
  have a: "0 < a" using assms b unfolding q by (simp add: zero_less_divide_iff)
  define la lb where "la = bitlen a" and "lb = bitlen b"
  have la: "2 ^ nat (la - 1) \<le> a" "a < 2 ^ nat la" and lb: "2 ^ nat (lb - 1) \<le> b" "b < 2 ^ nat lb"
    using bitlen_bounds [OF a] bitlen_bounds [OF b] by (simp_all add: la_def lb_def)
  have la1: "1 \<le> la" and lb1: "1 \<le> lb"
    using a b by (simp_all add: la_def lb_def bitlen_alt_def)
  have ra: "(2::rat) powi (la - 1) \<le> of_int a" "of_int a < (2::rat) powi la"
  proof -
    have "(of_int (2 ^ nat (la - 1)) :: rat) \<le> of_int a" using la(1) by (simp only: of_int_le_iff)
    then show "(2::rat) powi (la - 1) \<le> of_int a" using la1 by (simp add: power_int_nonneg_exp)
    have "(of_int a :: rat) < of_int (2 ^ nat la)" using la(2) by (simp only: of_int_less_iff)
    then show "of_int a < (2::rat) powi la" using la1 by (simp add: power_int_nonneg_exp)
  qed
  have rb: "(2::rat) powi (lb - 1) \<le> of_int b" "of_int b < (2::rat) powi lb"
  proof -
    have "(of_int (2 ^ nat (lb - 1)) :: rat) \<le> of_int b" using lb(1) by (simp only: of_int_le_iff)
    then show "(2::rat) powi (lb - 1) \<le> of_int b" using lb1 by (simp add: power_int_nonneg_exp)
    have "(of_int b :: rat) < of_int (2 ^ nat lb)" using lb(2) by (simp only: of_int_less_iff)
    then show "of_int b < (2::rat) powi lb" using lb1 by (simp add: power_int_nonneg_exp)
  qed
  have bpos: "(0::rat) < of_int b" using b by simp
  have up: "q < 2 powi (la - lb + 1)"
  proof -
    have "of_int a < (2::rat) powi (la - lb + 1) * 2 powi (lb - 1)"
      using ra(2) by (simp add: power_int_add [symmetric])
    also have "\<dots> \<le> 2 powi (la - lb + 1) * of_int b"
      using rb(1) by (intro mult_left_mono) simp_all
    finally show ?thesis unfolding q using bpos by (simp add: divide_less_eq)
  qed
  have lo: "2 powi (la - lb - 1) \<le> q"
  proof -
    have "(2::rat) powi (la - lb - 1) * of_int b \<le> 2 powi (la - lb - 1) * 2 powi lb"
      using rb(2) by (intro mult_left_mono) simp_all
    also have "\<dots> = 2 powi (la - 1)" by (simp add: power_int_add [symmetric])
    also have "\<dots> \<le> of_int a" by (rule ra(1))
    finally show ?thesis unfolding q using bpos by (simp add: le_divide_eq)
  qed
  show ?thesis
  proof (cases "2 powi (la - lb) \<le> q")
    case True
    then have "ilog2 q = la - lb" by (simp add: ilog2_def ab la_def lb_def)
    then show ?thesis using True up by simp
  next
    case False
    then have "ilog2 q = la - lb - 1" by (simp add: ilog2_def ab la_def lb_def)
    then show ?thesis using False lo by simp
  qed
qed

lemma ilog2_unique:
  assumes "0 < q" "2 powi L \<le> q" "q < 2 powi (L + 1)"
  shows "ilog2 q = L"
proof (rule ccontr)
  assume n: "ilog2 q \<noteq> L"
  note b = ilog2_bounds [OF assms(1)]
  show False
  proof (cases "ilog2 q < L")
    case True
    then have "(2::rat) powi (ilog2 q + 1) \<le> 2 powi L" by (intro powi_mono) simp
    then show False using b assms(2) by simp
  next
    case False
    then have "L + 1 \<le> ilog2 q" using n by simp
    then have "(2::rat) powi (L + 1) \<le> 2 powi (ilog2 q)" by (rule powi_mono)
    then show False using b assms(3) by simp
  qed
qed

lemma round53_pos:
  assumes "0 < q"
  shows "round53 q =
     of_int (round_half_even (q / 2 powi (max (ilog2 q - 52) (- 1074)))) * 2 powi (max (ilog2 q - 52) (- 1074))"
  using assms by (simp add: round53_def Let_def)

lemma round53_eqI:
  assumes "0 < q" "2 powi L \<le> q" "q < 2 powi (L + 1)" "- 1022 \<le> L"
    and "round_half_even (q / 2 powi (L - 52)) = m"
  shows "round53 q = of_int m * 2 powi (L - 52)"
proof -
  have "ilog2 q = L" using assms(1-3) by (rule ilog2_unique)
  moreover have "max (L - 52) (- 1074) = L - 52" using assms(4) by simp
  ultimately show ?thesis using assms(5) by (simp add: round53_pos [OF assms(1)])
qed

lemma round53_nonneg: "0 \<le> q \<Longrightarrow> 0 \<le> round53 q"
proof (cases "q = 0")
  case True
  then show ?thesis by (simp add: round53_def)
next
  case False
  assume "0 \<le> q"
  with False have q: "0 < q" by simp
  have "0 \<le> q / 2 powi (max (ilog2 q - 52) (- 1074))" using q by simp
  then have "0 \<le> round_half_even (q / 2 powi (max (ilog2 q - 52) (- 1074)))" by (rule rhe_nonneg)
  then show ?thesis unfolding round53_pos [OF q] by simp
qed

lemma round53_error:
  assumes "2 powi (- 1022) \<le> q"
  shows "\<bar>round53 q - q\<bar> \<le> q * 2 powi (- 53)"
proof -
  have q: "0 < q" using assms by (rule less_le_trans [rotated]) simp
  define L where "L = ilog2 q"
  note b = ilog2_bounds [OF q, folded L_def]
  have "(2::rat) powi (- 1022) < 2 powi (L + 1)" using assms b by simp
  then have "- 1022 < L + 1" by (rule powi_lessD)
  then have L: "- 1022 \<le> L" by simp
  define e where "e = L - 52"
  have e: "max (ilog2 q - 52) (- 1074) = e" using L by (simp add: e_def L_def)
  define m where "m = round_half_even (q / 2 powi e)"
  have r: "round53 q = of_int m * 2 powi e"
    unfolding round53_pos [OF q] e m_def ..
  have pe: "(0::rat) < 2 powi e" by simp
  have "\<bar>of_int m - q / 2 powi e\<bar> \<le> 1 / 2" unfolding m_def by (rule rhe_bounds)
  then have "\<bar>of_int m - q / 2 powi e\<bar> * 2 powi e \<le> 1 / 2 * 2 powi e"
    using pe by (intro mult_right_mono) simp_all
  moreover have "\<bar>of_int m - q / 2 powi e\<bar> * 2 powi e = \<bar>of_int m * 2 powi e - q\<bar>"
  proof -
    have "\<bar>of_int m - q / 2 powi e\<bar> * 2 powi e = \<bar>(of_int m - q / 2 powi e) * 2 powi e\<bar>"
      using pe by (simp add: abs_mult)
    also have "(of_int m - q / 2 powi e) * 2 powi e = of_int m * 2 powi e - q"
      using pe by (simp add: left_diff_distrib)
    finally show ?thesis .
  qed
  ultimately have "\<bar>round53 q - q\<bar> \<le> 1 / 2 * 2 powi e" by (simp add: r)
  also have "1 / 2 * (2::rat) powi e = 2 powi L * 2 powi (- 53)"
  proof -
    have "(2::rat) powi (L + (- 53)) = 2 powi L * 2 powi (- 53)"
      by (rule power_int_add) simp
    moreover have "L + (- 53) = e - 1" by (simp add: e_def)
    ultimately have "(2::rat) powi L * 2 powi (- 53) = 2 powi (e - 1)"
      by (simp only:)
    moreover have "(2::rat) powi e = 2 * 2 powi (e - 1)" by (rule powi_pred)
    ultimately show ?thesis by simp
  qed
  also have "\<dots> \<le> q * 2 powi (- 53)" using b by (intro mult_right_mono) simp_all
  finally show ?thesis .
qed

lemma round53_exact:
  assumes "0 < n" "n < 2 ^ 53" "- 1074 \<le> t"
  shows "round53 (of_nat n * 2 powi t) = of_nat n * 2 powi t"
proof -
  let ?q = "of_nat n * (2::rat) powi t"
  have q: "0 < ?q" using assms(1) by simp
  define L where "L = ilog2 ?q"
  note b = ilog2_bounds [OF q, folded L_def]
  have "(2::rat) powi L \<le> of_nat n * 2 powi t" using b by simp
  also have "\<dots> < 2 ^ 53 * 2 powi t"
  proof -
    have "(of_nat n :: rat) < of_nat (2 ^ 53)" using assms(2) by (simp only: of_nat_less_iff)
    then show ?thesis by (intro mult_strict_right_mono) simp_all
  qed
  also have "\<dots> = 2 powi (53 + t)" by (simp add: power_int_add)
  finally have "L < 53 + t" by (rule powi_lessD)
  define e where "e = max (L - 52) (- 1074)"
  have et: "e \<le> t" using \<open>L < 53 + t\<close> assms(3) by (simp add: e_def)
  have "?q / 2 powi e = of_nat n * 2 powi (t - e)"
    by (simp add: power_int_diff)
  also have "\<dots> = of_int (int n * 2 ^ nat (t - e))"
    using et by (simp add: power_int_nonneg_exp)
  finally have "round_half_even (?q / 2 powi e) = int n * 2 ^ nat (t - e)"
    by (simp only: rhe_of_int)
  then have "round53 ?q = of_int (int n * 2 ^ nat (t - e)) * 2 powi e"
    unfolding round53_pos [OF q] L_def [symmetric] e_def [symmetric] by simp
  also have "\<dots> = of_nat n * (2 powi (t - e) * 2 powi e)"
    using et by (simp add: power_int_nonneg_exp)
  also have "(2::rat) powi (t - e) * 2 powi e = 2 powi t"
    by (simp add: power_int_add [symmetric])
  finally show ?thesis .
qed

lemma round53_of_nat: "n < 2 ^ 53 \<Longrightarrow> round53 (of_nat n) = of_nat n"
proof (cases "n = 0")
  case True
  then show ?thesis by (simp add: round53_def)
next
  case False
  assume "n < 2 ^ 53"
  with False show ?thesis using round53_exact [of n 0] by simp
qed

lemma rhe_eqI:
  assumes "of_int m - 1 / 2 < q" "q < of_int m + 1 / 2"
  shows "round_half_even q = m"
proof (cases "of_int m \<le> q")
  case True
  then have f: "\<lfloor>q\<rfloor> = m" using assms(2) by (intro floor_unique) simp_all
  have "q - of_int m < 1 / 2" using assms(2) by simp
  then show ?thesis by (simp add: round_half_even_def Let_def f)
next
  case False
  then have f: "\<lfloor>q\<rfloor> = m - 1" using assms(1) by (intro floor_unique) simp_all
  have "1 / 2 < q - of_int (m - 1)" using assms(1) by simp
  then show ?thesis by (simp add: round_half_even_def Let_def f)
qed

lemma round53_nearest:
  assumes "0 < q" "2 powi L \<le> q" "q < 2 powi (L + 1)" "- 1022 \<le> L"
    and "(of_int m - 1 / 2) * 2 powi (L - 52) < q" "q < (of_int m + 1 / 2) * 2 powi (L - 52)"
  shows "round53 q = of_int m * 2 powi (L - 52)"
proof -
  have p: "(0::rat) < 2 powi (L - 52)" by simp
  have "of_int m - 1 / 2 < q / 2 powi (L - 52)"
    using assms(5) p by (simp only: pos_less_divide_eq)
  moreover have "q / 2 powi (L - 52) < of_int m + 1 / 2"
    using assms(6) p by (simp only: pos_divide_less_eq)
  ultimately have "round_half_even (q / 2 powi (L - 52)) = m" by (rule rhe_eqI)
  with assms(1-4) show ?thesis by (rule round53_eqI)
qed


section \<open>Hexadecimal formatting\<close>

lemma js_shl_small:
  assumes "0 \<le> x" "x < 256" "n \<le> 16"
  shows "js_shl x n = x * 2 ^ n"
proof -
  have p: "(2::int) ^ n \<le> 2 ^ 16"
    using assms(3) by (intro power_increasing) auto
  have "x * 2 ^ n \<le> 255 * 2 ^ 16"
    using assms(1,2) p by (intro mult_mono) auto
  then have ub: "x * 2 ^ n < 2 ^ 31" by simp
  have "0 \<le> x * 2 ^ n" using assms(1) by simp
  then have lb: "- (2 ^ 31) \<le> x * 2 ^ n" by simp
  have "push_bit (n mod 32) (word_of_int x :: 32 word) = word_of_int (x * 2 ^ n)"
    using assms(3) by (simp add: push_bit_eq_mult)
  then have "js_shl x n = sint (word_of_int (x * 2 ^ n) :: 32 word)"
    by (simp only: js_shl_def)
  also have "\<dots> = signed_take_bit 31 (x * 2 ^ n)"
    by (simp only: sint_sbintrunc') simp
  also have "\<dots> = x * 2 ^ n"
    using lb ub by (rule signed_take_bit_int_eq_self)
  finally show ?thesis .
qed

lemma js_shl_1_24: "js_shl 1 24 = 16777216"
  by (simp add: js_shl_def)

lemma uint_u8_bounds: "0 \<le> uint (w :: u8)" "uint (w :: u8) < 256"
  using uint_bounded [of w] by simp_all

lemma rgbValue_less: "rgbValue r g b < 16777216"
proof -
  have "unat r < 256" "unat g < 256" "unat b < 256"
    using unsigned_less [of r] unsigned_less [of g] unsigned_less [of b] by simp_all
  then show ?thesis unfolding rgbValue_def by linarith
qed

lemma rgbHex_toString:
  "rgbHex r g b = CHR ''#'' # drop 1 (digits16 (16777216 + rgbValue r g b))"
proof -
  have "js_shl (uint r) 16 = uint r * 65536" "js_shl (uint g) 8 = uint g * 256"
    using js_shl_small [of "uint r" 16] js_shl_small [of "uint g" 8] uint_u8_bounds
    by simp_all
  then have "js_shl 1 24 + js_shl (uint r) 16 + js_shl (uint g) 8 + uint b
      = int (16777216 + rgbValue r g b)"
    by (simp add: js_shl_1_24 rgbValue_def)
  then have "toString16 (js_shl 1 24 + js_shl (uint r) 16 + js_shl (uint g) 8 + uint b)
      = digits16 (16777216 + rgbValue r g b)"
    unfolding toString16_def by (simp only: nat_int) simp
  then show ?thesis
    by (simp add: rgbHex_def hexString_def toInt32_elem_def del: digits16.simps)
qed

lemma digits16_small: "n < 16 \<Longrightarrow> digits16 n = [hexDigit n]"
  by (subst digits16.simps) simp

lemma digits16_large: "\<not> n < 16 \<Longrightarrow> digits16 n = digits16 (n div 16) @ [hexDigit (n mod 16)]"
  by (subst digits16.simps) simp

lemma digits16_leading_one: "v < 16 ^ k \<Longrightarrow> digits16 (16 ^ k + v) = hexDigit 1 # hexpad k v"
proof (induction k arbitrary: v)
  case 0
  then show ?case by (simp add: digits16_small)
next
  case (Suc k)
  have "(16::nat) ^ Suc k \<ge> 16" 
    using power_increasing [of 1 "Suc k" "16::nat"] by simp
  then have ge: "\<not> 16 ^ Suc k + v < 16" by linarith
  have e: "16 ^ Suc k + v = 16 * 16 ^ k + v" by simp
  have d: "(16 ^ Suc k + v) div 16 = 16 ^ k + v div 16" unfolding e by (rule div_mult_self4) simp
  have m: "(16 ^ Suc k + v) mod 16 = v mod 16" unfolding e by (rule mod_mult_self4)
  have "v < 16 * 16 ^ k" using Suc.prems by simp
  then have "v div 16 < 16 ^ k" by (simp add: less_mult_imp_div_less mult.commute)
  then have "digits16 (16 ^ k + v div 16) = hexDigit 1 # hexpad k (v div 16)"
    by (rule Suc.IH)
  then show ?case
    by (simp only: digits16_large [OF ge] d m hexpad.simps append_Cons)
qed

lemma hexpad_byte:
  assumes "w < 256"
  shows "hexpad (Suc (Suc k)) (a * 256 + w) = hexpad k a @ [hexDigit (w div 16), hexDigit (w mod 16)]"
proof -
  have e: "a * 256 + w = 16 * (a * 16) + w" by simp
  have m: "(a * 256 + w) mod 16 = w mod 16"
    unfolding e by (rule mod_mult_self4)
  have d: "(a * 256 + w) div 16 = a * 16 + w div 16"
    unfolding e by (rule div_mult_self4) simp
  have w16: "w div 16 < 16" using assms by simp
  have m2: "(a * 16 + w div 16) mod 16 = w div 16" using w16 by simp
  have d2: "(a * 16 + w div 16) div 16 = a" using w16 by simp
  have "hexpad (Suc (Suc k)) (a * 256 + w)
      = (hexpad k ((a * 256 + w) div 16 div 16) @ [hexDigit ((a * 256 + w) div 16 mod 16)])
          @ [hexDigit ((a * 256 + w) mod 16)]"
    by (simp only: hexpad.simps)
  also have "\<dots> = (hexpad k a @ [hexDigit (w div 16)]) @ [hexDigit (w mod 16)]"
    by (simp only: m d m2 d2)
  finally show ?thesis by simp
qed

lemma unat_u8_less: "unat (w :: u8) < 256"
  using unsigned_less [of w] by simp

lemma hexpad_rgbValue:
  "hexpad 6 (rgbValue r g b) =
     [hexDigit (unat r div 16), hexDigit (unat r mod 16),
      hexDigit (unat g div 16), hexDigit (unat g mod 16),
      hexDigit (unat b div 16), hexDigit (unat b mod 16)]"
proof -
  have six: "(6::nat) = Suc (Suc (Suc (Suc (Suc (Suc 0)))))" by simp
  have v: "rgbValue r g b = ((0 * 256 + unat r) * 256 + unat g) * 256 + unat b"
    by (simp add: rgbValue_def)
  have "hexpad 6 (rgbValue r g b) =
      hexpad 0 0 @ [hexDigit (unat r div 16), hexDigit (unat r mod 16)]
        @ [hexDigit (unat g div 16), hexDigit (unat g mod 16)]
        @ [hexDigit (unat b div 16), hexDigit (unat b mod 16)]"
    unfolding six v by (simp only: hexpad_byte [OF unat_u8_less] append_assoc)
  then show ?thesis by simp
qed

lemma rgbHex_digits:
  "rgbHex r g b =
     [CHR ''#'', hexDigit (unat r div 16), hexDigit (unat r mod 16),
      hexDigit (unat g div 16), hexDigit (unat g mod 16),
      hexDigit (unat b div 16), hexDigit (unat b mod 16)]"
proof -
  have "digits16 (16 ^ 6 + rgbValue r g b) = hexDigit 1 # hexpad 6 (rgbValue r g b)"
    using rgbValue_less [of r g b] by (intro digits16_leading_one) simp
  then have "digits16 (16777216 + rgbValue r g b) = hexDigit 1 # hexpad 6 (rgbValue r g b)"
    by simp
  then show ?thesis
    by (simp only: rgbHex_toString hexpad_rgbValue) simp
qed

lemma hexDigit_inj: "a < 16 \<Longrightarrow> b < 16 \<Longrightarrow> hexDigit a = hexDigit b \<longleftrightarrow> a = b"
proof -
  assume "a < 16" "b < 16"
  moreover have "distinct ''0123456789abcdef''" by simp
  ultimately show ?thesis
    unfolding hexDigit_def by (intro nth_eq_iff_index_eq) simp_all
qed

lemma byte_digits_inj:
  fixes r r' :: u8
  assumes "hexDigit (unat r div 16) = hexDigit (unat r' div 16)"
    and "hexDigit (unat r mod 16) = hexDigit (unat r' mod 16)"
  shows "r = r'"
proof -
  have "unat r div 16 < 16" "unat r' div 16 < 16"
    using unat_u8_less [of r] unat_u8_less [of r'] by simp_all
  then have d: "unat r div 16 = unat r' div 16" using assms(1) by (simp add: hexDigit_inj)
  have m: "unat r mod 16 = unat r' mod 16" using assms(2) by (simp add: hexDigit_inj)
  have "unat r = unat r'"
    using d m by (metis div_mult_mod_eq)
  then show ?thesis by (simp add: word_unat_eq_iff)
qed

lemma rgbHex_inj: "rgbHex r g b = rgbHex r' g' b' \<longleftrightarrow> r = r' \<and> g = g' \<and> b = b'"
proof
  assume "rgbHex r g b = rgbHex r' g' b'"
  then have "hexDigit (unat r div 16) = hexDigit (unat r' div 16)"
    "hexDigit (unat r mod 16) = hexDigit (unat r' mod 16)"
    "hexDigit (unat g div 16) = hexDigit (unat g' div 16)"
    "hexDigit (unat g mod 16) = hexDigit (unat g' mod 16)"
    "hexDigit (unat b div 16) = hexDigit (unat b' div 16)"
    "hexDigit (unat b mod 16) = hexDigit (unat b' mod 16)"
    unfolding rgbHex_digits by simp_all
  then show "r = r' \<and> g = g' \<and> b = b'"
    by (intro conjI byte_digits_inj)
qed simp

lemma hexDigit_in: "d < 16 \<Longrightarrow> hexDigit d \<in> set ''0123456789abcdef''"
  unfolding hexDigit_def by (intro nth_mem) simp

section \<open>The loop and the map of counts\<close>

lemma imageData_loop_body: "imageData (loop_body i s) = imageData s"
  by (simp add: loop_body_def Let_def)

lemma imageData_extract_loop: "imageData (extract_loop i s) = imageData s"
proof (induction i s rule: extract_loop.induct)
  case (1 i s)
  show ?case
  proof (cases "i < length (imageData s)")
    case True
    then have "extract_loop i s = extract_loop (i + 4) (loop_body i s)"
      by (subst extract_loop.simps) simp
    then show ?thesis using 1 True by (simp add: imageData_loop_body)
  next
    case False
    then show ?thesis by (subst extract_loop.simps) simp
  qed
qed

lemma js_index_drop: "js_index (drop n xs) k = js_index xs (n + k)"
  by (auto simp: js_index_def)

lemma scan_keys_drop:
  assumes "i < length d"
  shows "scan_keys (drop i d) =
    hexString (js_index d i) (js_index d (i + 1)) (js_index d (i + 2)) # scan_keys (drop (i + 4) d)"
proof -
  have "drop i d = d ! i # drop (Suc i) d"
    using assms by (simp add: Cons_nth_drop_Suc)
  moreover have "js_index d i = Some (d ! i)" using assms by (simp add: js_index_def)
  ultimately show ?thesis by (simp add: js_index_drop add.commute)
qed

lemma colorMap_loop_body:
  "colorMap (loop_body i s) =
     bump (colorMap s) (hexString (js_index (imageData s) i) (js_index (imageData s) (i + 1))
       (js_index (imageData s) (i + 2)))"
  by (simp add: loop_body_def Let_def bump_def)

lemma colorMap_extract_loop:
  "colorMap (extract_loop i s) = fold (\<lambda>k m. bump m k) (scan_keys (drop i (imageData s))) (colorMap s)"
proof (induction i s rule: extract_loop.induct)
  case (1 i s)
  show ?case
  proof (cases "i < length (imageData s)")
    case True
    have "colorMap (extract_loop i s) = colorMap (extract_loop (i + 4) (loop_body i s))"
      using True by (subst extract_loop.simps) simp
    also have "\<dots> = fold (\<lambda>k m. bump m k) (scan_keys (drop (i + 4) (imageData s)))
        (colorMap (loop_body i s))"
      using 1 [OF True] by (simp only: imageData_loop_body)
    also have "\<dots> = fold (\<lambda>k m. bump m k) (scan_keys (drop i (imageData s))) (colorMap s)"
      by (simp only: scan_keys_drop [OF True] colorMap_loop_body fold_simps)
    finally show ?thesis .
  next
    case False
    then show ?thesis by (subst extract_loop.simps) simp
  qed
qed

lemma final_colorMap_fold: "final_colorMap d = fold (\<lambda>k m. bump m k) (scan_keys d) []"
  by (simp add: final_colorMap_def colorMap_extract_loop)

lemma scan_keys_pixels: "4 dvd length d \<Longrightarrow> scan_keys d = map pixelHex (pixels d)"
proof (induction d rule: pixels.induct)
  case (1 r g b a rest)
  have "length (r # g # b # a # rest) = length rest + 4" by simp
  then have "4 dvd length rest" using "1.prems" by (simp only: dvd_add_triv_right_iff)
  then have "scan_keys rest = map pixelHex (pixels rest)" by (rule "1.IH")
  then show ?case by (simp add: js_index_def pixelHex_def rgbHex_def)
qed (auto dest: dvd_imp_le)

lemma firsts_snoc: "firsts (ks @ [k]) = (if k \<in> set ks then firsts ks else firsts ks @ [k])"
  by (simp add: firsts_def)

lemma set_firsts [simp]: "set (firsts ks) = set ks"
  by (simp add: firsts_def)

lemma distinct_firsts [simp]: "distinct (firsts ks)"
  by (simp add: firsts_def)

lemma firsts_Nil [simp]: "firsts [] = []"
  by (simp add: firsts_def)

lemma firsts_append: "firsts (us @ vs) = firsts us @ filter (\<lambda>x. x \<notin> set us) (firsts vs)"
proof -
  have "remdups (xs @ ys) = filter (\<lambda>x. x \<notin> set ys) (remdups xs) @ remdups ys" for xs ys :: "'a list"
    by (induction xs) auto
  then show ?thesis
    by (simp add: firsts_def rev_filter)
qed

lemma firsts_Cons: "firsts (k # vs) = k # filter (\<lambda>x. x \<noteq> k) (firsts vs)"
  using firsts_append [of "[k]" vs] by (simp add: firsts_def)

lemma map_get_map: "map_get (map (\<lambda>x. (x, f x)) l) k = (if k \<in> set l then Some (f k) else None)"
  by (induction l) auto

lemma map_set_map:
  "distinct l \<Longrightarrow> map_set (map (\<lambda>x. (x, f x)) l) k v =
     (if k \<in> set l then map (\<lambda>x. (x, (f(k := v)) x)) l else map (\<lambda>x. (x, f x)) l @ [(k, v)])"
  by (induction l) auto

lemma bump_map:
  assumes "distinct l"
  shows "bump (map (\<lambda>x. (x, f x)) l) k =
     (if k \<in> set l then map (\<lambda>x. (x, (f(k := f k + 1)) x)) l else map (\<lambda>x. (x, f x)) l @ [(k, 1)])"
  unfolding bump_def get_or_0_def by (simp add: map_get_map map_set_map [OF assms])

lemma fold_bump: "fold (\<lambda>k m. bump m k) ks [] = map (\<lambda>k. (k, count_list ks k)) (firsts ks)"
proof (induction ks rule: rev_induct)
  case Nil
  then show ?case by simp
next
  case (snoc k ks)
  have "fold (\<lambda>k m. bump m k) (ks @ [k]) [] = bump (map (\<lambda>x. (x, count_list ks x)) (firsts ks)) k"
    using snoc by simp
  also have "\<dots> = map (\<lambda>x. (x, count_list (ks @ [k]) x)) (firsts (ks @ [k]))"
  proof (cases "k \<in> set ks")
    case True
    then show ?thesis
      by (simp add: bump_map firsts_snoc)
  next
    case False
    then show ?thesis
      by (auto simp: bump_map firsts_snoc)
  qed
  finally show ?case .
qed

lemma final_colorMap_eq:
  "final_colorMap d = map (\<lambda>k. (k, count_list (scan_keys d) k)) (firsts (scan_keys d))"
  by (simp only: final_colorMap_fold fold_bump)

section \<open>Sorting, sums and bounds\<close>

lemma js_insert_insort:
  "js_insert by_percentage_desc x ys = insort_key (\<lambda>c. - percentage c) x ys"
  by (induction ys) (simp_all add: by_percentage_desc_def)

lemma js_sort_sort_key: "js_sort by_percentage_desc xs = sort_key (\<lambda>c. - percentage c) xs"
  unfolding js_sort_def sort_key_def
  by (induction xs) (simp_all add: js_insert_insort)

lemma length_js_sort: "length (js_sort by_percentage_desc xs) = length xs"
  by (simp add: js_sort_sort_key)

lemma set_js_sort: "set (js_sort by_percentage_desc xs) = set xs"
  by (simp add: js_sort_sort_key)

lemma sorted_js_sort: "sorted (map (\<lambda>c. - percentage c) (js_sort by_percentage_desc xs))"
  by (simp add: js_sort_sort_key)

lemma sum_list_insort_key:
  "sum_list (map g (insort_key f x ys)) = g x + sum_list (map g ys)" for g :: "'a \<Rightarrow> rat"
  by (induction ys) simp_all

lemma sum_list_js_sort:
  "sum_list (map g (js_sort by_percentage_desc xs)) = sum_list (map g xs)" for g :: "Color \<Rightarrow> rat"
  unfolding js_sort_sort_key
  by (induction xs) (simp_all add: sum_list_insort_key)

lemma sum_list_take_le:
  fixes xs :: "rat list"
  assumes "\<forall>x\<in>set xs. 0 \<le> x"
  shows "sum_list (take n xs) \<le> sum_list xs"
proof -
  have "sum_list xs = sum_list (take n xs) + sum_list (drop n xs)"
    by (metis append_take_drop_id sum_list_append)
  moreover have "0 \<le> sum_list (drop n xs)"
    using assms by (intro sum_list_nonneg) (auto dest: in_set_dropD)
  ultimately show ?thesis by simp
qed

lemma length_pixels: "length (pixels d) = length d div 4"
  by (induction d rule: pixels.induct) simp_all

lemma length_scan_keys: "4 dvd length d \<Longrightarrow> length (scan_keys d) = length d div 4"
  by (simp add: scan_keys_pixels length_pixels)

lemma histogram_eq:
  "histogram d =
     map (\<lambda>k. \<lparr>Color.hex = k,
                percentage = percentage_of (count_list (scan_keys d) k) (totalPixels d)\<rparr>)
       (firsts (scan_keys d))"
  by (simp add: histogram_def final_colorMap_eq comp_def)

lemma percentage_of_nonneg: "0 \<le> tp \<Longrightarrow> 0 \<le> percentage_of c tp"
  unfolding percentage_of_def by (intro round53_nonneg mult_nonneg_nonneg) simp_all

lemma totalPixels_nonneg: "0 \<le> totalPixels d"
  unfolding totalPixels_def by (intro round53_nonneg) simp

lemma percentage_nonneg: "c \<in> set (histogram d) \<Longrightarrow> 0 \<le> percentage c"
  by (auto simp: histogram_eq percentage_of_nonneg totalPixels_nonneg)

lemma sum_counts_firsts: "sum_list (map (count_list ks) (firsts ks)) = length ks"
proof -
  have "sum_list (map (count_list ks) (firsts ks)) = sum (count_list ks) (set (firsts ks))"
    by (rule sum_list_distinct_conv_sum_set) simp
  also have "\<dots> = length ks"
    by (simp add: sum_count_set)
  finally show ?thesis .
qed

lemma sum_scaled:
  "sum_list (map (\<lambda>k. of_nat (f k) / t * s) l) = of_nat (sum_list (map f l)) / t * (s :: rat)"
  by (induction l) (simp_all add: add_divide_distrib distrib_right)

lemma totalPixels_exact:
  assumes "length d = 4 * n" "length d < 2 ^ 53"
  shows "totalPixels d = of_nat n"
proof (cases "n = 0")
  case True
  then show ?thesis using assms(1) by (simp add: totalPixels_def round53_def)
next
  case False
  then have "0 < n" by simp
  moreover have "n < 2 ^ 53" using assms by simp
  ultimately have "round53 (of_nat n) = of_nat n" by (intro round53_of_nat)
  then show ?thesis using assms(1) by (simp add: totalPixels_def)
qed

lemma round53_error_unit:
  assumes "2 powi (- 1022) \<le> q"
  shows "\<bar>round53 q - q\<bar> \<le> q * unit_roundoff"
proof -
  have "(2::rat) powi (- 53) = unit_roundoff" by (simp add: unit_roundoff_def)
  then show ?thesis using round53_error [OF assms] by (simp only:)
qed

lemma round53_lower:
  assumes "2 powi (- 1022) \<le> q"
  shows "q * (1 - unit_roundoff) \<le> round53 q"
proof -
  have "q - q * unit_roundoff \<le> round53 q"
    using round53_error_unit [OF assms] by linarith
  then show ?thesis by (simp only: right_diff_distrib mult_1_right)
qed

lemma round53_upper:
  assumes "2 powi (- 1022) \<le> q"
  shows "round53 q \<le> q * (1 + unit_roundoff)"
proof -
  have "round53 q \<le> q + q * unit_roundoff"
    using round53_error_unit [OF assms] by linarith
  then show ?thesis by (simp only: distrib_left mult_1_right)
qed

lemma percentage_of_bounds:
  assumes "2 powi (- 1022) \<le> a" "a = of_nat c / tp"
  shows "100 * a * (1 - unit_roundoff)\<^sup>2 \<le> percentage_of c tp"
    and "percentage_of c tp \<le> 100 * a * (1 + unit_roundoff)\<^sup>2"
proof -
  let ?u = "unit_roundoff"
  have u: "0 < ?u" "?u < 1 / 2" by (simp_all add: unit_roundoff_def)
  have a0: "0 < a" using assms(1) by (rule less_le_trans [rotated]) simp
  define a' where "a' = round53 a"
  have lo: "a * (1 - ?u) \<le> a'" and up: "a' \<le> a * (1 + ?u)"
    unfolding a'_def using assms(1) by (rule round53_lower, rule round53_upper)
  have "a * (1 / 2) \<le> a * (1 - ?u)" using a0 u by (intro mult_left_mono) simp_all
  then have half: "a / 2 \<le> a'" using lo by simp
  then have a'0: "0 < a'" using a0 by linarith
  have "2 powi (- 1022) \<le> a' * 100" using assms(1) half a0 by linarith
  then have plo: "a' * 100 * (1 - ?u) \<le> round53 (a' * 100)"
    and pup: "round53 (a' * 100) \<le> a' * 100 * (1 + ?u)"
    by (rule round53_lower, rule round53_upper)
  have p: "percentage_of c tp = round53 (a' * 100)"
    by (simp add: percentage_of_def a'_def assms(2))
  have "100 * a * (1 - ?u)\<^sup>2 = a * (1 - ?u) * 100 * (1 - ?u)" by (simp add: power2_eq_square)
  also have "\<dots> \<le> a' * 100 * (1 - ?u)" using lo u by (intro mult_right_mono) simp_all
  also have "\<dots> \<le> round53 (a' * 100)" by (rule plo)
  finally show "100 * a * (1 - ?u)\<^sup>2 \<le> percentage_of c tp" by (simp only: p)
  have "round53 (a' * 100) \<le> a' * 100 * (1 + ?u)" by (rule pup)
  also have "\<dots> \<le> a * (1 + ?u) * 100 * (1 + ?u)" using up u by (intro mult_right_mono) simp_all
  also have "\<dots> = 100 * a * (1 + ?u)\<^sup>2" by (simp add: power2_eq_square)
  finally show "percentage_of c tp \<le> 100 * a * (1 + ?u)\<^sup>2" by (simp only: p)
qed

lemma sum_histogram_bounds:
  assumes "length d = 4 * n" "0 < n" "length d < 2 ^ 53"
  shows "100 * (1 - unit_roundoff)\<^sup>2 \<le> sum_list (map percentage (histogram d))"
    and "sum_list (map percentage (histogram d)) \<le> 100 * (1 + unit_roundoff)\<^sup>2"
proof -
  let ?ks = "scan_keys d"
  let ?c = "count_list ?ks"
  have w: "4 dvd length d" using assms(1) by simp
  have tp: "totalPixels d = of_nat n" using assms(1,3) by (rule totalPixels_exact)
  have len: "length ?ks = n" using assms(1) w by (simp add: length_scan_keys)
  have n53: "n < 2 ^ 53" using assms(1,3) by simp
  have b: "100 * (of_nat (?c k) / of_nat n) * (1 - unit_roundoff)\<^sup>2 \<le> percentage_of (?c k) (of_nat n)
      \<and> percentage_of (?c k) (of_nat n) \<le> 100 * (of_nat (?c k) / of_nat n) * (1 + unit_roundoff)\<^sup>2"
    if "k \<in> set (firsts ?ks)" for k
  proof -
    have "k \<in> set ?ks" using that by simp
    then have "?c k \<noteq> 0" by (simp only: count_list_0_iff not_not)
    then have c1: "1 \<le> ?c k" by simp
    have "(2::rat) powi (- 1022) \<le> 1 / 2 ^ 53" by simp
    also have "\<dots> \<le> 1 / of_nat n"
    proof -
      have "(of_nat n :: rat) \<le> of_nat (2 ^ 53)" using n53 by (simp only: of_nat_le_iff less_imp_le)
      then show ?thesis using assms(2) by (simp add: frac_le)
    qed
    also have "\<dots> \<le> of_nat (?c k) / of_nat n"
      using c1 assms(2) by (simp add: divide_right_mono)
    finally have "2 powi (- 1022) \<le> (of_nat (?c k) :: rat) / of_nat n" .
    then show ?thesis using percentage_of_bounds [OF _ refl] by blast
  qed
  have total: "sum_list (map (\<lambda>k. of_nat (?c k) / of_nat n * s) (firsts ?ks)) = s" for s :: rat
  proof -
    have "sum_list (map (\<lambda>k. of_nat (?c k) / of_nat n * s) (firsts ?ks))
        = of_nat (sum_list (map ?c (firsts ?ks))) / of_nat n * s"
      by (rule sum_scaled)
    also have "\<dots> = of_nat n / of_nat n * s" by (simp only: sum_counts_firsts len)
    also have "\<dots> = s" using assms(2) by simp
    finally show ?thesis .
  qed
  have e: "sum_list (map percentage (histogram d))
      = sum_list (map (\<lambda>k. percentage_of (?c k) (of_nat n)) (firsts ?ks))"
    by (simp add: histogram_eq tp comp_def)
  have "sum_list (map (\<lambda>k. of_nat (?c k) / of_nat n * (100 * (1 - unit_roundoff)\<^sup>2)) (firsts ?ks))
      \<le> sum_list (map (\<lambda>k. percentage_of (?c k) (of_nat n)) (firsts ?ks))"
    by (rule sum_list_mono) (use b in \<open>simp add: mult_ac\<close>)
  then show "100 * (1 - unit_roundoff)\<^sup>2 \<le> sum_list (map percentage (histogram d))"
    by (simp only: total e)
  have "sum_list (map (\<lambda>k. percentage_of (?c k) (of_nat n)) (firsts ?ks))
      \<le> sum_list (map (\<lambda>k. of_nat (?c k) / of_nat n * (100 * (1 + unit_roundoff)\<^sup>2)) (firsts ?ks))"
    by (rule sum_list_mono) (use b in \<open>simp add: mult_ac\<close>)
  then show "sum_list (map percentage (histogram d)) \<le> 100 * (1 + unit_roundoff)\<^sup>2"
    by (simp only: total e)
qed

lemma sum_extractColors_le: "sum_list (map percentage (extractColors d)) \<le> sum_list (map percentage (histogram d))"
proof -
  have "\<forall>x\<in>set (map percentage (js_sort by_percentage_desc (histogram d))). 0 \<le> x"
    by (auto simp: set_js_sort percentage_nonneg)
  then have "sum_list (take 6 (map percentage (js_sort by_percentage_desc (histogram d))))
      \<le> sum_list (map percentage (js_sort by_percentage_desc (histogram d)))"
    by (rule sum_list_take_le)
  then show ?thesis by (simp add: extractColors_def take_map sum_list_js_sort)
qed

lemma hexString_Some: "hexString (Some r) (Some g) (Some b) = rgbHex r g b"
  by (simp add: rgbHex_def)

lemmas eval_extract =
  extractColors_def histogram_def final_colorMap_fold scan_keys.simps js_index_def
  hexString_Some rgbHex_digits hexDigit_def bump_def get_or_0_def js_sort_def
  by_percentage_desc_def totalPixels_def

lemma pixelHex_inj: "inj pixelHex"
  by (auto simp: inj_on_def pixelHex_def rgbHex_inj)

lemma hex_histogram: "map Color.hex (histogram d) = firsts (scan_keys d)"
  by (simp add: histogram_eq comp_def)

lemma length_histogram: "4 dvd length d \<Longrightarrow> length (histogram d) = card (set (pixels d))"
proof -
  assume w: "4 dvd length d"
  have "length (histogram d) = length (map Color.hex (histogram d))" by simp
  also have "\<dots> = card (set (scan_keys d))"
    unfolding hex_histogram by (metis distinct_card distinct_firsts set_firsts)
  also have "\<dots> = card (pixelHex ` set (pixels d))"
    using w by (simp add: scan_keys_pixels)
  also have "\<dots> = card (set (pixels d))"
    by (rule card_image) (rule inj_on_subset [OF pixelHex_inj subset_UNIV])
  finally show ?thesis .
qed

lemma length_extractColors: "length (extractColors d) = min (length (firsts (scan_keys d))) 6"
  by (simp add: extractColors_def length_js_sort histogram_eq)

lemmas eval_keys =
  scan_keys.simps js_index_def hexString_Some rgbHex_digits hexDigit_def firsts_def

lemma round53_numeral: "numeral k < (2 ^ 53 :: nat) \<Longrightarrow> round53 (numeral k) = numeral k"
  using round53_of_nat [of "numeral k"] by simp

lemma round53_half: "round53 (1 / 2) = 1 / 2"
  using round53_exact [of 1 "- 1"] by simp

lemma percentage_of_1_2: "percentage_of (Suc 0) 2 = 50"
  by (simp add: percentage_of_def round53_half round53_numeral)

lemma percentage_of_7_9: "percentage_of 7 9 = 5473124547151645 / 70368744177664"
proof -
  have a: "round53 (7 / 9) = 7005599420354105 / 9007199254740992"
    using round53_nearest [of "7 / 9" "- 1" 7005599420354105] by simp
  have b: "round53 (7005599420354105 / 9007199254740992 * 100) = 5473124547151645 / 70368744177664"
    using round53_nearest [of "7005599420354105 / 9007199254740992 * 100" 6 5473124547151645] by simp
  have "percentage_of 7 9 = round53 (round53 (7 / 9) * 100)" by (simp add: percentage_of_def)
  also have "\<dots> = round53 (7005599420354105 / 9007199254740992 * 100)" by (simp only: a)
  also have "\<dots> = 5473124547151645 / 70368744177664" by (rule b)
  finally show ?thesis .
qed

lemma percentage_of_1_9: "percentage_of (Suc 0) 9 = 3127499741229511 / 281474976710656"
proof -
  have a: "round53 (1 / 9) = 2001599834386887 / 18014398509481984"
    using round53_nearest [of "1 / 9" "- 4" 8006399337547548] by simp
  have b: "round53 (2001599834386887 / 18014398509481984 * 100) = 3127499741229511 / 281474976710656"
    using round53_nearest [of "2001599834386887 / 18014398509481984 * 100" 3 6254999482459022] by simp
  have "percentage_of (Suc 0) 9 = round53 (round53 (1 / 9) * 100)" by (simp add: percentage_of_def)
  also have "\<dots> = round53 (2001599834386887 / 18014398509481984 * 100)" by (simp only: a)
  also have "\<dots> = 3127499741229511 / 281474976710656" by (rule b)
  finally show ?thesis .
qed

lemma histogram_buffer_7_1_1:
  "histogram buffer_7_1_1 =
     [\<lparr>Color.hex = ''#ff0000'', percentage = 5473124547151645 / 70368744177664\<rparr>,
      \<lparr>Color.hex = ''#00ff00'', percentage = 3127499741229511 / 281474976710656\<rparr>,
      \<lparr>Color.hex = ''#0000ff'', percentage = 3127499741229511 / 281474976710656\<rparr>]"
proof -
  have tp: "totalPixels buffer_7_1_1 = 9"
    by (simp add: totalPixels_def buffer_7_1_1_def round53_numeral)
  have m: "final_colorMap buffer_7_1_1 = [(''#ff0000'', 7), (''#00ff00'', Suc 0), (''#0000ff'', Suc 0)]"
    by (simp add: final_colorMap_fold buffer_7_1_1_def eval_keys bump_def get_or_0_def)
  show ?thesis
    unfolding histogram_def m tp
    by (simp only: list.map prod.case percentage_of_7_9 percentage_of_1_9)
qed

lemma extractColors_short:
  "length (histogram d) \<le> 6 \<Longrightarrow>
     sum_list (map percentage (extractColors d)) = sum_list (map percentage (histogram d))"
  by (simp add: extractColors_def length_js_sort sum_list_js_sort)

text \<open>
  Claim C6. The sequence returned by the extractor is ordered by percentage, largest first:
  every entry's percentage is at least that of the entry after it. This holds for every
  byte array.
\<close>
theorem extractColors_sorted_desc:
  "Suc i < length (extractColors d) \<Longrightarrow>
     percentage (extractColors d ! Suc i) \<le> percentage (extractColors d ! i)"
proof -
  assume i: "Suc i < length (extractColors d)"
  let ?ys = "map (\<lambda>c. - percentage c) (extractColors d)"
  have "sorted (take 6 (map (\<lambda>c. - percentage c) (js_sort by_percentage_desc (histogram d))))"
    by (intro sorted_wrt_take sorted_js_sort)
  then have "sorted ?ys" by (simp add: extractColors_def take_map)
  moreover have "Suc i < length ?ys" using i by simp
  ultimately have "?ys ! i \<le> ?ys ! Suc i"
    by (intro sorted_nth_mono) simp_all
  then show ?thesis using i by simp
qed

theorem extractColors_sorted_desc_witness:
  "Suc 0 < length (extractColors [255, 0, 0, 255, 0, 255, 0, 255, 255, 0, 0, 9])
   \<and> percentage (extractColors [255, 0, 0, 255, 0, 255, 0, 255, 255, 0, 0, 9] ! Suc 0)
      \<le> percentage (extractColors [255, 0, 0, 255, 0, 255, 0, 255, 255, 0, 0, 9] ! 0)"
proof -
  have h: "Suc 0 < length (extractColors [255, 0, 0, 255, 0, 255, 0, 255, 255, 0, 0, 9])"
    by (simp add: length_extractColors eval_keys)
  show ?thesis using h extractColors_sorted_desc [OF h] by simp
qed

text \<open>
  Claim C7. For a buffer of whole pixels, the extractor returns at most 6 entries (the
  limit is the constant 6 of line 68) and at most as many entries as the buffer has distinct
  colours; when the buffer has fewer than 6 distinct colours, the keys of the result are
  exactly the keys of the buffer's colours, so every colour appears.
\<close>
theorem extractColors_bound:
  assumes "4 dvd length d"
  shows "length (extractColors d) \<le> 6
    \<and> length (extractColors d) \<le> card (set (pixels d))
    \<and> (card (set (pixels d)) < 6 \<longrightarrow>
          Color.hex ` set (extractColors d) = pixelHex ` set (pixels d))"
proof -
  have len: "length (extractColors d) = min (card (set (pixels d))) 6"
    by (simp add: extractColors_def length_js_sort length_histogram [OF assms])
  have "Color.hex ` set (extractColors d) = pixelHex ` set (pixels d)"
    if "card (set (pixels d)) < 6"
  proof -
    have "length (js_sort by_percentage_desc (histogram d)) \<le> 6"
      using that by (simp add: length_js_sort length_histogram [OF assms])
    then have "extractColors d = js_sort by_percentage_desc (histogram d)"
      by (simp add: extractColors_def)
    then have "Color.hex ` set (extractColors d) = set (map Color.hex (histogram d))"
      by (simp add: set_js_sort)
    also have "\<dots> = pixelHex ` set (pixels d)"
      unfolding hex_histogram using assms by (simp add: scan_keys_pixels)
    finally show ?thesis .
  qed
  then show ?thesis using len by simp
qed

theorem extractColors_bound_witness:
  "4 dvd length [255, 0, 0, 255, 0, 255, 0, 255, 255, 0, 0, 9 :: u8]
   \<and> length (extractColors [255, 0, 0, 255, 0, 255, 0, 255, 255, 0, 0, 9]) \<le> 6
   \<and> length (extractColors [255, 0, 0, 255, 0, 255, 0, 255, 255, 0, 0, 9])
        \<le> card (set (pixels [255, 0, 0, 255, 0, 255, 0, 255, 255, 0, 0, 9]))
   \<and> card (set (pixels [255, 0, 0, 255, 0, 255, 0, 255, 255, 0, 0, 9])) < 6
   \<and> Color.hex ` set (extractColors [255, 0, 0, 255, 0, 255, 0, 255, 255, 0, 0, 9])
        = pixelHex ` set (pixels [255, 0, 0, 255, 0, 255, 0, 255, 255, 0, 0, 9])"
proof -
  have "length [255, 0, 0, 255, 0, 255, 0, 255, 255, 0, 0, 9 :: u8] = 4 * 3" by simp
  then have h: "4 dvd length [255, 0, 0, 255, 0, 255, 0, 255, 255, 0, 0, 9 :: u8]"
    by (simp only: dvd_triv_left)
  have c: "card (set (pixels [255, 0, 0, 255, 0, 255, 0, 255, 255, 0, 0, 9])) < 6"
    by (rule le_less_trans [OF card_length]) simp
  show ?thesis using h c extractColors_bound [OF h] by blast
qed

text \<open>
  Claim C5, as amended. The percentages are doubles, each the result of two rounded
  operations. For a buffer of \<open>w \<times> h > 0\<close> pixels (fewer than \<open>2 ^ 53\<close> bytes) their exact
  sum over the full histogram lies between \<open>100 (1 - u)\<^sup>2\<close> and \<open>100 (1 + u)\<^sup>2\<close>, where
  \<open>u = 2 ^ -53\<close>, hence within \<open>10 ^ -9\<close> of 100 relatively; the sum over the returned list is
  at most \<open>100 (1 + u)\<^sup>2\<close>. Neither sum is bounded by 100.
\<close>
theorem percentages_conservation:
  assumes "length d = 4 * (w * h)" and "0 < w * h" and "length d < 2 ^ 53"
  shows "100 * (1 - unit_roundoff)\<^sup>2 \<le> sum_list (map percentage (histogram d))
    \<and> sum_list (map percentage (histogram d)) \<le> 100 * (1 + unit_roundoff)\<^sup>2
    \<and> \<bar>sum_list (map percentage (histogram d)) - 100\<bar> \<le> 100 / 10 ^ 9
    \<and> sum_list (map percentage (extractColors d)) \<le> 100 * (1 + unit_roundoff)\<^sup>2"
proof -
  let ?s = "sum_list (map percentage (histogram d))"
  have lo: "100 * (1 - unit_roundoff)\<^sup>2 \<le> ?s" and up: "?s \<le> 100 * (1 + unit_roundoff)\<^sup>2"
    using assms by (rule sum_histogram_bounds)+
  have "100 - 100 / 10 ^ 9 \<le> 100 * (1 - unit_roundoff)\<^sup>2"
    "100 * (1 + unit_roundoff)\<^sup>2 \<le> 100 + 100 / 10 ^ 9"
    by (simp_all add: unit_roundoff_def power2_eq_square)
  then have "\<bar>?s - 100\<bar> \<le> 100 / 10 ^ 9" using lo up by (simp only: abs_le_iff) linarith
  moreover have "sum_list (map percentage (extractColors d)) \<le> 100 * (1 + unit_roundoff)\<^sup>2"
    using sum_extractColors_le [of d] up by (rule order_trans)
  ultimately show ?thesis using lo up by simp
qed

theorem percentages_conservation_witness:
  "100 * (1 - unit_roundoff)\<^sup>2 \<le> sum_list (map percentage (histogram buffer_7_1_1))
   \<and> sum_list (map percentage (histogram buffer_7_1_1)) \<le> 100 * (1 + unit_roundoff)\<^sup>2
   \<and> sum_list (map percentage (extractColors buffer_7_1_1)) \<le> 100 * (1 + unit_roundoff)\<^sup>2"
proof -
  have h1: "length buffer_7_1_1 = 4 * (9 * 1)" by (simp add: buffer_7_1_1_def)
  have h2: "0 < (9::nat) * 1" by simp
  have h3: "length buffer_7_1_1 < 2 ^ 53" by (simp add: buffer_7_1_1_def)
  show ?thesis using percentages_conservation [OF h1 h2 h3] by simp
qed

text \<open>
  The claim as stated fails on the code's numbers: for nine pixels, seven red, one green and
  one blue, the three percentages are \<open>77.77777777777779\<close>, \<open>11.11111111111111\<close> and
  \<open>11.11111111111111\<close>; their exact sum is \<open>100 + 2 ^ -47\<close>, not 100 and not at most 100.
\<close>

theorem percentages_sum_counterexample:
  "length buffer_7_1_1 = 4 * (9 * 1)
   \<and> sum_list (map percentage (histogram buffer_7_1_1)) = 100 + 1 / 2 ^ 47
   \<and> sum_list (map percentage (extractColors buffer_7_1_1)) = 100 + 1 / 2 ^ 47
   \<and> \<not> sum_list (map percentage (histogram buffer_7_1_1)) = 100
   \<and> \<not> sum_list (map percentage (extractColors buffer_7_1_1)) \<le> 100"
proof -
  have h: "sum_list (map percentage (histogram buffer_7_1_1)) = 100 + 1 / 2 ^ 47"
    by (simp add: histogram_buffer_7_1_1)
  have "length (histogram buffer_7_1_1) \<le> 6" by (simp add: histogram_buffer_7_1_1)
  then have e: "sum_list (map percentage (extractColors buffer_7_1_1)) = 100 + 1 / 2 ^ 47"
    using h by (simp only: extractColors_short)
  have l: "length buffer_7_1_1 = 4 * (9 * 1)" by (simp add: buffer_7_1_1_def)
  have n1: "\<not> sum_list (map percentage (histogram buffer_7_1_1)) = 100" unfolding h by simp
  have n2: "\<not> sum_list (map percentage (extractColors buffer_7_1_1)) \<le> 100" unfolding e by simp
  show ?thesis by (intro conjI l h e n1 n2)
qed

section \<open>The whole callback\<close>

lemma totalPixels_pos:
  assumes "d \<noteq> []" "4 dvd length d"
  shows "0 < totalPixels d"
proof -
  obtain m where m: "length d = 4 * m" using assms(2) by (auto simp: dvd_def)
  with assms(1) have "1 \<le> m" by (cases m) auto
  then have q: "(1::rat) \<le> of_nat (length d) / 4" by (simp add: m)
  have "(2::rat) powi (- 1022) \<le> 1" by simp
  then have n: "2 powi (- 1022) \<le> (of_nat (length d) :: rat) / 4" using q by (rule order_trans)
  have q0: "(0::rat) < of_nat (length d) / 4" using q by linarith
  have "(0::rat) < 1 - unit_roundoff" by (simp add: unit_roundoff_def)
  with q0 have "0 < of_nat (length d) / 4 * (1 - unit_roundoff)" by (rule mult_pos_pos)
  also have "\<dots> \<le> totalPixels d" unfolding totalPixels_def using n by (rule round53_lower)
  finally show ?thesis .
qed

lemma extractColors_nonempty: "d \<noteq> [] \<Longrightarrow> extractColors d \<noteq> []"
proof -
  assume "d \<noteq> []"
  then have "scan_keys d \<noteq> []" by (cases d) simp_all
  then have "set (firsts (scan_keys d)) \<noteq> {}" by simp
  then have "firsts (scan_keys d) \<noteq> []" by (simp only: set_empty not_False_eq_True)
  then have "0 < length (extractColors d)" by (simp add: length_extractColors)
  then show ?thesis by simp
qed

text \<open>
  Claim C8, as amended. For an image of positive area the callback does not fail: it sets
  \<open>colors\<close> to a list that is not empty, computed with \<open>totalPixels > 0\<close>. For an image
  of zero width or height it does not yield the empty list: \<open>getImageData\<close> raises
  \<open>IndexSizeError\<close> at line 48, before the histogram is built, and \<open>colors\<close> is not set.
  Without a canvas the callback returns at once and leaves \<open>colors\<close> as it is.
\<close>
theorem extractColors_total:
  "(imageElement.width img = 0 \<or> imageElement.height img = 0 \<longrightarrow>
      extractColors_from_image colors (Some cv) img = Inl IndexSizeError)
   \<and> (0 < imageElement.width img' * imageElement.height img' \<longrightarrow>
       length (bitmap img') = 4 * (imageElement.width img' * imageElement.height img') \<longrightarrow>
         extractColors_from_image colors (Some cv) img' =
           Inr (extractColors (bitmap img'),
                Some (cv\<lparr>canvas.width := imageElement.width img',
                          canvas.height := imageElement.height img',
                          data := bitmap img'\<rparr>))
         \<and> extractColors (bitmap img') \<noteq> []
         \<and> 0 < totalPixels (bitmap img'))
   \<and> extractColors_from_image colors None img = Inr (colors, None)"
proof -
  have z: "extractColors_from_image colors (Some cv) img = Inl IndexSizeError"
    if "imageElement.width img = 0 \<or> imageElement.height img = 0"
    using that by (auto simp: extractColors_from_image_def getImageData_canvas_def Let_def)
  have p: "extractColors_from_image colors (Some cv) img' =
           Inr (extractColors (bitmap img'),
                Some (cv\<lparr>canvas.width := imageElement.width img',
                          canvas.height := imageElement.height img',
                          data := bitmap img'\<rparr>))
         \<and> extractColors (bitmap img') \<noteq> []
         \<and> 0 < totalPixels (bitmap img')"
    if a: "0 < imageElement.width img' * imageElement.height img'"
      and l: "length (bitmap img') = 4 * (imageElement.width img' * imageElement.height img')"
  proof -
    have ne: "bitmap img' \<noteq> []" using a l by auto
    have w: "4 dvd length (bitmap img')" using l by simp
    have "extractColors_from_image colors (Some cv) img' =
           Inr (extractColors (bitmap img'),
                Some (cv\<lparr>canvas.width := imageElement.width img',
                          canvas.height := imageElement.height img',
                          data := bitmap img'\<rparr>))"
      using a by (simp add: extractColors_from_image_def getImageData_canvas_def Let_def)
    then show ?thesis using extractColors_nonempty [OF ne] totalPixels_pos [OF ne w] by simp
  qed
  have n: "extractColors_from_image colors None img = Inr (colors, None)"
    by (simp add: extractColors_from_image_def)
  show ?thesis using z p n by blast
qed

theorem extractColors_total_witness:
  "extractColors_from_image [] (Some canvas_white) image_0x0 = Inl IndexSizeError
   \<and> extractColors_from_image [] (Some canvas_white) image_2x1 =
        Inr (extractColors [255, 0, 0, 255, 0, 255, 0, 255],
             Some \<lparr>canvas.width = 2, height = 1, data = [255, 0, 0, 255, 0, 255, 0, 255]\<rparr>)
   \<and> \<not> extractColors [255, 0, 0, 255, 0, 255, 0, 255] = []
   \<and> 0 < totalPixels [255, 0, 0, 255, 0, 255, 0, 255]"
proof -
  have h0: "imageElement.width image_0x0 = 0 \<or> imageElement.height image_0x0 = 0"
    by (simp add: image_0x0_def)
  have h1: "0 < imageElement.width image_2x1 * imageElement.height image_2x1"
    by (simp add: image_2x1_def)
  have h2: "length (bitmap image_2x1) = 4 * (imageElement.width image_2x1 * imageElement.height image_2x1)"
    by (simp add: image_2x1_def)
  note T = extractColors_total [of image_0x0 "[]" canvas_white image_2x1]
  have c0: "extractColors_from_image [] (Some canvas_white) image_0x0 = Inl IndexSizeError"
    using T h0 by (elim conjE) (erule (1) impE)
  have c1: "extractColors_from_image [] (Some canvas_white) image_2x1 =
           Inr (extractColors (bitmap image_2x1),
                Some (canvas_white\<lparr>canvas.width := imageElement.width image_2x1,
                          canvas.height := imageElement.height image_2x1,
                          data := bitmap image_2x1\<rparr>))
         \<and> extractColors (bitmap image_2x1) \<noteq> []
         \<and> 0 < totalPixels (bitmap image_2x1)"
    using T h1 h2 by (elim conjE) (erule (1) impE)+
  then show ?thesis using c0 by (simp add: image_2x1_def canvas_white_def)
qed

text \<open>
  The claim as stated fails: for the image of zero area the callback raises
  \<open>IndexSizeError\<close>; it does not set \<open>colors\<close> to the empty list.
\<close>

theorem zero_area_counterexample:
  "imageElement.width image_0x0 * imageElement.height image_0x0 = 0
   \<and> extractColors_from_image [] (Some canvas_white) image_0x0 = Inl IndexSizeError
   \<and> \<not> extractColors_from_image [] (Some canvas_white) image_0x0 =
         Inr ([], Some \<lparr>canvas.width = 0, height = 0, data = []\<rparr>)"
proof -
  have "extractColors_from_image [] (Some canvas_white) image_0x0 = Inl IndexSizeError"
    by (simp add: extractColors_from_image_def getImageData_canvas_def image_0x0_def Let_def)
  then show ?thesis by (simp add: image_0x0_def)
qed

section \<open>Order among equal percentages\<close>

lemma before_map: "before x y l \<Longrightarrow> before (f x) (f y) (map f l)"
  unfolding before_def by (metis list.simps(9) map_append)

lemma before_filter: "before x y l \<Longrightarrow> P x \<Longrightarrow> P y \<Longrightarrow> before x y (filter P l)"
proof -
  assume "before x y l" and p: "P x" "P y"
  then obtain as bs cs where "l = as @ x # bs @ y # cs" unfolding before_def by blast
  then have "filter P l = filter P as @ x # filter P bs @ y # filter P cs"
    using p by simp
  then show ?thesis unfolding before_def by blast
qed

lemma before_in_set: "before x y l \<Longrightarrow> x \<in> set l \<and> y \<in> set l"
  unfolding before_def by auto

lemma before_neq: "distinct l \<Longrightarrow> before x y l \<Longrightarrow> x \<noteq> y"
  unfolding before_def by auto

lemma before_total:
  assumes "x \<in> set l" "y \<in> set l" "x \<noteq> y"
  shows "before x y l \<or> before y x l"
proof -
  obtain as bs where l: "l = as @ x # bs" using assms(1) by (meson split_list)
  then have "y \<in> set as \<or> y \<in> set bs" using assms(2,3) by auto
  then show ?thesis
  proof
    assume "y \<in> set as"
    then obtain as1 as2 where "as = as1 @ y # as2" by (meson split_list)
    then have "l = as1 @ y # as2 @ x # bs" using l by simp
    then show ?thesis unfolding before_def by blast
  next
    assume "y \<in> set bs"
    then obtain bs1 bs2 where "bs = bs1 @ y # bs2" by (meson split_list)
    then have "l = as @ x # bs1 @ y # bs2" using l by simp
    then show ?thesis unfolding before_def by blast
  qed
qed

lemma before_nth:
  "before x y l \<longleftrightarrow> (\<exists>i j. i < j \<and> j < length l \<and> l ! i = x \<and> l ! j = y)"
proof
  assume "before x y l"
  then obtain as bs cs where l: "l = as @ x # bs @ y # cs" unfolding before_def by blast
  have "length as < length as + Suc (length bs)" by simp
  moreover have "length as + Suc (length bs) < length l" using l by simp
  moreover have "l ! length as = x" using l by simp
  moreover have "l ! (length as + Suc (length bs)) = y"
    using l by (simp add: nth_append)
  ultimately show "\<exists>i j. i < j \<and> j < length l \<and> l ! i = x \<and> l ! j = y" by blast
next
  assume "\<exists>i j. i < j \<and> j < length l \<and> l ! i = x \<and> l ! j = y"
  then obtain i j where ij: "i < j" "j < length l" "l ! i = x" "l ! j = y" by blast
  have "l = take j l @ y # drop (Suc j) l"
    using ij(2,4) by (metis id_take_nth_drop)
  moreover have "take j l = take i (take j l) @ x # drop (Suc i) (take j l)"
    using ij by (metis id_take_nth_drop length_take min.absorb4 nth_take)
  ultimately have "l = take i (take j l) @ x # drop (Suc i) (take j l) @ y # drop (Suc j) l"
    by (metis append.assoc append_Cons)
  then show "before x y l" unfolding before_def by blast
qed

lemma before_asym:
  assumes "distinct l" "before x y l"
  shows "\<not> before y x l"
proof
  assume "before y x l"
  then obtain i j where a: "i < j" "j < length l" "l ! i = y" "l ! j = x"
    unfolding before_nth by blast
  obtain i' j' where b: "i' < j'" "j' < length l" "l ! i' = x" "l ! j' = y"
    using assms(2) unfolding before_nth by blast
  have "j = i'" using assms(1) a b by (metis less_trans nth_eq_iff_index_eq)
  moreover have "i = j'" using assms(1) a b by (metis less_trans nth_eq_iff_index_eq)
  ultimately show False using a(1) b(1) by simp
qed

lemma before_filter_rev:
  assumes "distinct l" "before x y (filter P l)"
  shows "before x y l"
proof (rule ccontr)
  assume n: "\<not> before x y l"
  have d: "distinct (filter P l)" using assms(1) by simp
  have m: "x \<in> set (filter P l)" "y \<in> set (filter P l)"
    using before_in_set [OF assms(2)] by simp_all
  have "x \<noteq> y" using d assms(2) by (rule before_neq)
  then have "before y x l" using before_total [of x l y] m n by auto
  then have "before y x (filter P l)" using m by (intro before_filter) simp_all
  then show False using before_asym [OF d assms(2)] by simp
qed

lemma before_sort_key:
  assumes "distinct xs" "before x y xs" "f x = f y"
  shows "before x y (sort_key f xs)"
proof -
  have "before x y (filter (\<lambda>z. f z = f x) xs)"
    using assms(2,3) by (intro before_filter) simp_all
  then have "before x y (filter (\<lambda>z. f z = f x) (sort_key f xs))"
    by (simp only: sort_key_stable)
  moreover have "distinct (sort_key f xs)" using assms(1) by simp
  ultimately show ?thesis by (rule before_filter_rev [rotated])
qed

lemma before_firsts:
  assumes "ks = us @ k1 # vs" "k2 \<notin> set us" "k2 \<in> set vs" "k1 \<noteq> k2"
  shows "before k1 k2 (firsts ks)"
proof -
  let ?tail = "filter (\<lambda>x. x \<notin> set us) (filter (\<lambda>x. x \<noteq> k1) (firsts vs))"
  have f: "firsts ks = firsts us @ filter (\<lambda>x. x \<notin> set us) (k1 # filter (\<lambda>x. x \<noteq> k1) (firsts vs))"
    unfolding assms(1) by (simp only: firsts_append firsts_Cons)
  have "k2 \<in> set ?tail" using assms(2,3,4) by simp
  then obtain bs cs where t: "?tail = bs @ k2 # cs" by (meson split_list)
  show ?thesis
  proof (cases "k1 \<in> set us")
    case True
    then have "k1 \<in> set (firsts us)" by simp
    then obtain as1 as2 where "firsts us = as1 @ k1 # as2" by (meson split_list)
    then have "firsts ks = as1 @ k1 # (as2 @ bs) @ k2 # cs"
      using f t True by simp
    then show ?thesis unfolding before_def by blast
  next
    case False
    then have "firsts ks = firsts us @ k1 # bs @ k2 # cs"
      using f t by simp
    then show ?thesis unfolding before_def by blast
  qed
qed

lemma count_list_map_inj:
  "inj f \<Longrightarrow> count_list (map f xs) (f x) = count_list xs x"
  by (induction xs) (auto simp: inj_eq)

lemma distinct_histogram: "distinct (map Color.hex (histogram d))"
  by (simp add: hex_histogram)

lemma distinct_hex_sorted: "distinct (map Color.hex (js_sort by_percentage_desc (histogram d)))"
proof -
  have "distinct (histogram d) \<and> inj_on Color.hex (set (histogram d))"
    using distinct_histogram [of d] by (simp only: distinct_map)
  then have "distinct (sort_key (\<lambda>c. - percentage c) (histogram d))
      \<and> inj_on Color.hex (set (sort_key (\<lambda>c. - percentage c) (histogram d)))"
    by simp
  then show ?thesis by (simp only: js_sort_sort_key distinct_map)
qed

text \<open>
  Claim C10. Let two distinct colours have the same number of pixels in a buffer of whole
  pixels, and let \<open>c1\<close> occur at a pixel before which \<open>c2\<close> has not occurred (so the first
  occurrence of \<open>c1\<close> in row-major scan order precedes that of \<open>c2\<close>). Then wherever
  \<open>c2\<close> stands in the returned sequence, \<open>c1\<close> stands at an earlier index. The order among
  equal percentages is the order of first occurrence, not the order of the keys: for the
  pixels red, green the result is \<open>#ff0000\<close>, \<open>#00ff00\<close>.
\<close>
theorem tie_break_first_occurrence:
  assumes "4 dvd length d"
    and "pixels d = us @ c1 # vs" and "c2 \<notin> set us" and "c2 \<in> set vs" and "c1 \<noteq> c2"
    and "count_list (pixels d) c1 = count_list (pixels d) c2"
    and "j < length (extractColors d)"
    and "Color.hex (extractColors d ! j) = pixelHex c2"
  shows "\<exists>i<j. Color.hex (extractColors d ! i) = pixelHex c1"
proof -
  let ?ks = "scan_keys d"
  let ?mk = "\<lambda>k. \<lparr>Color.hex = k, percentage = percentage_of (count_list ?ks k) (totalPixels d)\<rparr>"
  let ?S = "js_sort by_percentage_desc (histogram d)"
  have ks: "?ks = map pixelHex us @ pixelHex c1 # map pixelHex vs"
    using assms(1,2) by (simp add: scan_keys_pixels)
  have "pixelHex c2 \<notin> set (map pixelHex us)" "pixelHex c2 \<in> set (map pixelHex vs)"
    "pixelHex c1 \<noteq> pixelHex c2"
    using assms(3,4,5) pixelHex_inj by (auto simp: inj_eq)
  with ks have "before (pixelHex c1) (pixelHex c2) (firsts ?ks)"
    by (rule before_firsts)
  then have b: "before (?mk (pixelHex c1)) (?mk (pixelHex c2)) (histogram d)"
    unfolding histogram_eq by (rule before_map)
  have "count_list ?ks (pixelHex c1) = count_list ?ks (pixelHex c2)"
    using assms(1,6) by (simp add: scan_keys_pixels count_list_map_inj [OF pixelHex_inj])
  then have e: "- percentage (?mk (pixelHex c1)) = - percentage (?mk (pixelHex c2))"
    by simp
  have "distinct (histogram d)"
    using distinct_histogram [of d] by (simp only: distinct_map)
  then have "before (?mk (pixelHex c1)) (?mk (pixelHex c2)) (sort_key (\<lambda>c. - percentage c) (histogram d))"
    using b e by (rule before_sort_key)
  then obtain i' j' where ij: "i' < j'" "j' < length ?S" "?S ! i' = ?mk (pixelHex c1)"
    "?S ! j' = ?mk (pixelHex c2)"
    unfolding before_nth js_sort_sort_key by blast
  have j: "j < length ?S" "extractColors d ! j = ?S ! j"
    using assms(7) by (simp_all add: extractColors_def)
  have "map Color.hex ?S ! j = map Color.hex ?S ! j'"
    using j ij(2,4) assms(8) by simp
  then have "j = j'"
    using distinct_hex_sorted [of d] j(1) ij(2) by (metis length_map nth_eq_iff_index_eq)
  then have "i' < j" using ij(1) by simp
  moreover have "extractColors d ! i' = ?S ! i'"
    using \<open>i' < j\<close> assms(7) by (simp add: extractColors_def)
  ultimately show ?thesis using ij(3) by auto
qed

theorem tie_break_first_occurrence_witness:
  "4 dvd length [255, 0, 0, 255, 0, 255, 0, 255 :: u8]
   \<and> pixels [255, 0, 0, 255, 0, 255, 0, 255] = [] @ (255, 0, 0) # [(0, 255, 0)]
   \<and> (0, 255, 0) \<notin> set ([] :: (u8 \<times> u8 \<times> u8) list)
   \<and> (0, 255, 0) \<in> set [(0, 255, 0) :: u8 \<times> u8 \<times> u8]
   \<and> ((255, 0, 0) :: u8 \<times> u8 \<times> u8) \<noteq> (0, 255, 0)
   \<and> count_list (pixels [255, 0, 0, 255, 0, 255, 0, 255]) (255, 0, 0)
       = count_list (pixels [255, 0, 0, 255, 0, 255, 0, 255]) (0, 255, 0)
   \<and> 1 < length (extractColors [255, 0, 0, 255, 0, 255, 0, 255])
   \<and> Color.hex (extractColors [255, 0, 0, 255, 0, 255, 0, 255] ! 1) = pixelHex (0, 255, 0)
   \<and> (\<exists>i<1. Color.hex (extractColors [255, 0, 0, 255, 0, 255, 0, 255] ! i) = pixelHex (255, 0, 0))"
proof -
  let ?d = "[255, 0, 0, 255, 0, 255, 0, 255] :: u8 list"
  have "length ?d = 4 * 2" by simp
  then have h1: "4 dvd length ?d" by (simp only: dvd_triv_left)
  have h2: "pixels ?d = [] @ (255, 0, 0) # [(0, 255, 0)]" by simp
  have h3: "(0, 255, 0) \<notin> set ([] :: (u8 \<times> u8 \<times> u8) list)" by simp
  have h4: "(0, 255, 0) \<in> set [(0, 255, 0) :: u8 \<times> u8 \<times> u8]" by simp
  have h5: "((255, 0, 0) :: u8 \<times> u8 \<times> u8) \<noteq> (0, 255, 0)" by simp
  have h6: "count_list (pixels ?d) (255, 0, 0) = count_list (pixels ?d) (0, 255, 0)" by simp
  have h7: "1 < length (extractColors ?d)" by (simp add: eval_extract)
  have h8: "Color.hex (extractColors ?d ! 1) = pixelHex (0, 255, 0)"
    by (simp add: eval_extract pixelHex_def)
  show ?thesis
    using h1 h2 h3 h4 h5 h6 h7 h8 tie_break_first_occurrence [OF h1 h2 h3 h4 h5 h6 h7 h8]
    by blast
qed

section \<open>Determinism\<close>

lemma stable_sort_unique:
  assumes "stable_sorted_by by_percentage_desc xs ys"
  shows "ys = js_sort by_percentage_desc xs"
proof -
  let ?f = "\<lambda>c. - percentage c"
  have m: "mset ys = mset xs" using assms by (simp add: stable_sorted_by_def)
  then have s: "set ys = set xs" by (rule mset_eq_setD)
  have "sorted_wrt (\<lambda>a b. ?f a \<le> ?f b) ys"
    using assms by (simp add: stable_sorted_by_def by_percentage_desc_def)
  then have srt: "sorted (map ?f ys)" by (simp only: sorted_map)
  have st: "filter (\<lambda>x. ?f k = ?f x) ys = filter (\<lambda>x. ?f k = ?f x) xs" if "k \<in> set ys" for k
  proof -
    have "filter (\<lambda>b. by_percentage_desc k b = 0) ys = filter (\<lambda>b. by_percentage_desc k b = 0) xs"
      using assms that s by (simp add: stable_sorted_by_def)
    moreover have "(\<lambda>b. by_percentage_desc k b = 0) = (\<lambda>x. ?f k = ?f x)"
      by (auto simp: by_percentage_desc_def fun_eq_iff)
    ultimately show ?thesis by simp
  qed
  have "sort_key ?f xs = ys" using m st srt by (rule properties_for_sort_key)
  then show ?thesis by (simp add: js_sort_sort_key)
qed

lemma js_sort_stable_sorted: "stable_sorted_by by_percentage_desc xs (js_sort by_percentage_desc xs)"
proof -
  let ?f = "\<lambda>c. - percentage c"
  have "sorted (map ?f (sort_key ?f xs))" by simp
  then have "sorted_wrt (\<lambda>a b. by_percentage_desc a b \<le> 0) (sort_key ?f xs)"
    by (simp add: sorted_map by_percentage_desc_def)
  moreover have "filter (\<lambda>b. by_percentage_desc a b = 0) (sort_key ?f xs)
      = filter (\<lambda>b. by_percentage_desc a b = 0) xs" for a
  proof -
    have "(\<lambda>b. by_percentage_desc a b = 0) = (\<lambda>y. ?f y = ?f a)"
      by (auto simp: by_percentage_desc_def fun_eq_iff)
    then show ?thesis by (simp only: sort_key_stable)
  qed
  ultimately show ?thesis by (simp add: stable_sorted_by_def js_sort_sort_key)
qed

lemma histogram_red_green:
  "histogram [255, 0, 0, 255, 0, 255, 0, 255] =
     [\<lparr>Color.hex = ''#ff0000'', percentage = 50\<rparr>, \<lparr>Color.hex = ''#00ff00'', percentage = 50\<rparr>]"
proof -
  have "totalPixels [255, 0, 0, 255, 0, 255, 0, 255] = 2"
    by (simp add: totalPixels_def round53_numeral)
  then show ?thesis
    by (simp add: histogram_eq eval_keys count_list.simps percentage_of_1_2)
qed

text \<open>
  Claim C9. The extractor is a function of the byte array alone. The loop never writes
  \<open>imageData\<close>: the array after any number of iterations is the array before. The result
  does not depend on how the engine sorts: the sort of the model meets the contract of
  \<open>Array.prototype.sort\<close> for the comparator of line 67, and every sequence that meets
  it, cut to its first 6 entries, is the sequence the model returns. Equal arrays give
  equal sequences.
\<close>
theorem extract_deterministic:
  "imageData (extract_loop i s) = imageData s
   \<and> stable_sorted_by by_percentage_desc (histogram d) (js_sort by_percentage_desc (histogram d))
   \<and> (stable_sorted_by by_percentage_desc (histogram d) ys \<longrightarrow> take 6 ys = extractColors d)
   \<and> (d' = d \<longrightarrow> extractColors d' = extractColors d)"
proof -
  have "take 6 ys = extractColors d" if "stable_sorted_by by_percentage_desc (histogram d) ys"
    using stable_sort_unique [OF that] by (simp add: extractColors_def)
  then show ?thesis by (simp add: imageData_extract_loop js_sort_stable_sorted)
qed

theorem extract_deterministic_witness:
  "take 6 [\<lparr>Color.hex = ''#ff0000'', percentage = 50\<rparr>, \<lparr>Color.hex = ''#00ff00'', percentage = 50\<rparr>]
       = extractColors [255, 0, 0, 255, 0, 255, 0, 255]
   \<and> imageData (extract_loop 0 \<lparr>imageData = [255, 0, 0, 255, 0, 255, 0, 255], colorMap = []\<rparr>)
       = [255, 0, 0, 255, 0, 255, 0, 255]"
proof -
  let ?d = "[255, 0, 0, 255, 0, 255, 0, 255] :: u8 list"
  let ?ys = "[\<lparr>Color.hex = ''#ff0000'', percentage = 50\<rparr>, \<lparr>Color.hex = ''#00ff00'', percentage = 50\<rparr>]"
  have h: "stable_sorted_by by_percentage_desc (histogram ?d) ?ys"
    unfolding histogram_red_green
    by (simp add: stable_sorted_by_def by_percentage_desc_def)
  note T = extract_deterministic [of 0 "\<lparr>imageData = ?d, colorMap = []\<rparr>" ?d ?ys ?d]
  have c1: "take 6 ?ys = extractColors ?d" using T h by (elim conjE) (erule (1) impE)
  have c2: "imageData (extract_loop 0 \<lparr>imageData = ?d, colorMap = []\<rparr>) = ?d"
    using T by simp
  show ?thesis by (intro conjI c1 c2)
qed

section \<open>The point sampler\<close>

lemma integerPart_nonneg: "0 \<le> q \<Longrightarrow> integerPart q = \<lfloor>q\<rfloor>"
  by (simp add: integerPart_def)

lemma hexString_pixel:
  "length px = 4 \<Longrightarrow>
     hexString (js_index px 0) (js_index px 1) (js_index px 2) = rgbHex (px ! 0) (px ! 1) (px ! 2)"
  by (simp add: js_index_def rgbHex_def)

lemma pixel_index_bound:
  fixes x y w h :: nat
  assumes "x < w" "y < h"
  shows "4 * (y * w + x) + 4 \<le> 4 * (w * h)"
proof -
  have "y * w + x < y * w + w" using assms(1) by simp
  also have "\<dots> = Suc y * w" by simp
  also have "\<dots> \<le> h * w" using assms(2) by (intro mult_le_mono1) simp
  finally have "y * w + x < w * h" by (simp add: mult.commute)
  then show ?thesis by simp
qed

lemma length_pixel_at:
  assumes "valid_canvas cv" "x < canvas.width cv" "y < canvas.height cv"
  shows "length (pixel_at cv x y) = 4"
  using pixel_index_bound [OF assms(2,3)] assms(1)
  by (simp add: pixel_at_def valid_canvas_def)

lemma getColorAtPoint_picking:
  assumes "isPicking st"
  shows "getColorAtPoint st (Some cv) (Some img) e now =
     (case getImageData cv (sourceX img e) (sourceY img e) of
        Inl ex \<Rightarrow> Inl ex
      | Inr pixel \<Rightarrow> Inr (picked st (hexString (js_index pixel 0) (js_index pixel 1) (js_index pixel 2)) now))"
  using assms
  by (simp add: getColorAtPoint_def Let_def picked_def sourceX_def sourceY_def displayX_def
      displayY_def displayWidth_def displayHeight_def split: sum.splits)

lemma to_long_Inl: "to_long v = Inl ex \<Longrightarrow> ex = TypeError"
  by (auto simp: to_long_def split: option.splits if_splits)

lemma getImageData_Inl: "getImageData cv sx sy = Inl ex \<Longrightarrow> ex = TypeError"
  by (auto simp: getImageData_def split: sum.splits dest: to_long_Inl)

lemma getImageData_inside:
  assumes "to_long sx = Inr x" "to_long sy = Inr y"
    and "0 \<le> x" "x < int (canvas.width cv)" "0 \<le> y" "y < int (canvas.height cv)"
  shows "getImageData cv sx sy = Inr (pixel_at cv (nat x) (nat y))"
  using assms by (simp add: getImageData_def pixel_at_def)

lemma getImageData_outside:
  assumes "to_long sx = Inr x" "to_long sy = Inr y"
    and "\<not> (0 \<le> x \<and> x < int (canvas.width cv) \<and> 0 \<le> y \<and> y < int (canvas.height cv))"
  shows "getImageData cv sx sy = Inr [0, 0, 0, 0]"
  using assms by (auto simp: getImageData_def)

lemma getImageData_nonfinite:
  "getImageData cv None sy = Inl TypeError"
  "getImageData cv sx None = Inl TypeError"
proof -
  show "getImageData cv None sy = Inl TypeError"
    by (simp add: getImageData_def to_long_def)
  show "getImageData cv sx None = Inl TypeError"
  proof (cases "to_long sx")
    case (Inl a)
    then show ?thesis using to_long_Inl [OF Inl] by (simp add: getImageData_def)
  next
    case (Inr b)
    then show ?thesis by (simp add: getImageData_def to_long_def)
  qed
qed

lemma black_hex: "hexString (js_index [0, 0, 0, 0] 0) (js_index [0, 0, 0, 0] 1) (js_index [0, 0, 0, 0] 2) = ''#000000''"
  by (simp add: js_index_def hexString_Some rgbHex_digits hexDigit_def)

lemma js_scale_zero: "js_mul x (js_div n 0) = None"
  by (simp add: js_mul_def js_div_def)

lemma round53_zero: "round53 0 = 0"
  by (simp add: round53_def)

lemma round53_one: "round53 1 = 1"
  using round53_of_nat [of 1] by simp

lemmas eval_double = js_sub_def js_div_def js_mul_def finite_double_def round53_numeral
  round53_one round53_zero

lemma js_div_self: "w \<noteq> 0 \<Longrightarrow> js_div w w = Some 1"
  by (simp add: eval_double)

lemma to_long_inside:
  assumes "0 \<le> integerPart q" "integerPart q < int n" "n < 2 ^ 31"
  shows "to_long (Some q) = Inr (integerPart q)"
  using assms by (simp add: to_long_def)

lemma sample_inside:
  assumes "isPicking st" "valid_canvas cv"
    and "sourceX img e = Some qx" "sourceY img e = Some qy"
    and "0 \<le> integerPart qx" "integerPart qx < int (canvas.width cv)"
    and "0 \<le> integerPart qy" "integerPart qy < int (canvas.height cv)"
    and "canvas.width cv < 2 ^ 31" "canvas.height cv < 2 ^ 31"
  shows "getColorAtPoint st (Some cv) (Some img) e now =
     Inr (picked st
       (rgbHex (pixel_at cv (nat (integerPart qx)) (nat (integerPart qy)) ! 0)
               (pixel_at cv (nat (integerPart qx)) (nat (integerPart qy)) ! 1)
               (pixel_at cv (nat (integerPart qx)) (nat (integerPart qy)) ! 2))
       now)"
proof -
  let ?x = "integerPart qx" and ?y = "integerPart qy"
  have lx: "to_long (Some qx) = Inr ?x" using assms(5,6,9) by (rule to_long_inside)
  have ly: "to_long (Some qy) = Inr ?y" using assms(7,8,10) by (rule to_long_inside)
  have g: "getImageData cv (Some qx) (Some qy) = Inr (pixel_at cv (nat ?x) (nat ?y))"
    using lx ly assms(5,6,7,8) by (rule getImageData_inside)
  have "nat ?x < canvas.width cv" "nat ?y < canvas.height cv"
    using assms(5,6,7,8) by simp_all
  then have len: "length (pixel_at cv (nat ?x) (nat ?y)) = 4"
    using assms(2) by (intro length_pixel_at)
  show ?thesis
    unfolding getColorAtPoint_picking [OF assms(1)] assms(3,4) g
    by (simp only: sum.case hexString_pixel [OF len])
qed

lemmas example_defs = picking_def canvas_3x4_def img_3x4_def canvas_100_def img_100_at_50_def
  canvas_white_def img_1x1_def img_collapsed_def canvas_30_def img_30_at_22_def
  img_1x1_at_49_def displayX_def displayY_def displayWidth_def
  displayHeight_def valid_canvas_def sourceX_def sourceY_def

lemma pixel_at_canvas_100: "pixel_at canvas_100 20 20 = [144, 145, 146, 147]"
proof -
  have "pixel_at canvas_100 20 20 = map of_nat (take 4 (drop 8080 [0..<40000]))"
    by (simp add: canvas_100_def pixel_at_def drop_map take_map del: upt_rec_numeral drop_upt take_upt)
  also have "take 4 (drop 8080 [0..<40000]) = [8080..<8084]"
    by (simp del: upt_rec_numeral)
  also have "map of_nat [8080..<8084] = [144, 145, 146, 147 :: u8]"
    by (simp add: upt_rec_numeral)
  finally show ?thesis .
qed

lemma pixel_at_canvas_30:
  "pixel_at canvas_30 14 0 = [56, 57, 58, 59]"
  "pixel_at canvas_30 15 0 = [60, 61, 62, 63]"
proof -
  have "pixel_at canvas_30 14 0 = map of_nat (take 4 (drop 56 [0..<120]))"
    by (simp add: canvas_30_def pixel_at_def drop_map take_map del: upt_rec_numeral drop_upt take_upt)
  also have "take 4 (drop 56 [0..<120]) = [56..<60]"
    by (simp del: upt_rec_numeral)
  also have "map of_nat [56..<60] = [56, 57, 58, 59 :: u8]"
    by (simp add: upt_rec_numeral)
  finally show "pixel_at canvas_30 14 0 = [56, 57, 58, 59]" .
  have "pixel_at canvas_30 15 0 = map of_nat (take 4 (drop 60 [0..<120]))"
    by (simp add: canvas_30_def pixel_at_def drop_map take_map del: upt_rec_numeral drop_upt take_upt)
  also have "take 4 (drop 60 [0..<120]) = [60..<64]"
    by (simp del: upt_rec_numeral)
  also have "map of_nat [60..<64] = [60, 61, 62, 63 :: u8]"
    by (simp add: upt_rec_numeral)
  finally show "pixel_at canvas_30 15 0 = [60, 61, 62, 63]" .
qed

lemma rgbHex_909192: "rgbHex 144 145 146 = ''#909192''"
  by (simp add: rgbHex_digits hexDigit_def)

lemma rgbHex_38393a: "rgbHex 56 57 58 = ''#38393a''"
  by (simp add: rgbHex_digits hexDigit_def)

lemma rgbHex_3c3d3e: "rgbHex 60 61 62 = ''#3c3d3e''"
  by (simp add: rgbHex_digits hexDigit_def)

lemma source_100_at_50:
  "sourceX img_100_at_50 \<lparr>clientX = 15, clientY = 17\<rparr> = Some 20"
  "sourceY img_100_at_50 \<lparr>clientX = 15, clientY = 17\<rparr> = Some 20"
  by (simp_all add: example_defs eval_double)

lemma round53_30_22: "round53 (30 / 22) = 6141272219141585 / 4503599627370496"
  using round53_nearest [of "30 / 22" 0 6141272219141585] by simp

lemma round53_11_scale:
  "round53 (11 * (6141272219141585 / 4503599627370496)) = 15 - 1 / 2 ^ 49"
  using round53_nearest [of "11 * (6141272219141585 / 4503599627370496)" 3 8444249301319679] by simp

lemma source_30_at_22:
  "sourceX img_30_at_22 \<lparr>clientX = 11, clientY = 0\<rparr> = Some (15 - 1 / 2 ^ 49)"
  "sourceY img_30_at_22 \<lparr>clientX = 11, clientY = 0\<rparr> = Some 0"
proof -
  have a: "js_div 30 22 = Some (6141272219141585 / 4503599627370496)"
    unfolding js_div_def round53_30_22 by (simp add: finite_double_def)
  have b: "js_mul 11 (Some (6141272219141585 / 4503599627370496)) = Some (15 - 1 / 2 ^ 49)"
    unfolding js_mul_def option.case round53_11_scale by (simp add: finite_double_def)
  have x: "displayX img_30_at_22 \<lparr>clientX = 11, clientY = 0\<rparr> = 11"
    by (simp add: example_defs eval_double)
  show "sourceX img_30_at_22 \<lparr>clientX = 11, clientY = 0\<rparr> = Some (15 - 1 / 2 ^ 49)"
    unfolding sourceX_def x using a b by (simp add: img_30_at_22_def displayWidth_def)
  show "sourceY img_30_at_22 \<lparr>clientX = 11, clientY = 0\<rparr> = Some 0"
    by (simp add: example_defs eval_double)
qed

lemma round53_subnormal_error:
  assumes "0 < q" "q < 2 powi (- 1022)"
  shows "\<bar>round53 q - q\<bar> \<le> 2 powi (- 1075)"
proof -
  let ?P = "(2::rat) powi (- 1074)"
  note b = ilog2_bounds [OF assms(1)]
  have "(2::rat) powi (ilog2 q) < 2 powi (- 1022)" using b assms(2) by simp
  then have "ilog2 q < - 1022" by (rule powi_lessD)
  then have e: "max (ilog2 q - 52) (- 1074) = - 1074" by simp
  define m where "m = round_half_even (q / ?P)"
  have r: "round53 q = of_int m * ?P"
    unfolding round53_pos [OF assms(1)] e m_def by (rule refl)
  have P: "0 < ?P" by simp
  have q: "q = q / ?P * ?P" using P by simp
  have "\<bar>of_int m - q / ?P\<bar> \<le> 1 / 2" unfolding m_def by (rule rhe_bounds)
  then have "\<bar>of_int m - q / ?P\<bar> * ?P \<le> 1 / 2 * ?P"
    using P by (intro mult_right_mono) simp_all
  moreover have "\<bar>of_int m - q / ?P\<bar> * ?P = \<bar>of_int m * ?P - q / ?P * ?P\<bar>"
    using P by (simp only: left_diff_distrib [symmetric] abs_mult abs_of_pos)
  moreover have "1 / 2 * ?P = 2 powi (- 1075)"
    using powi_pred [of "- 1074"] by simp
  ultimately have "\<bar>of_int m * ?P - q / ?P * ?P\<bar> \<le> 2 powi (- 1075)" by (simp only:)
  then show ?thesis unfolding r using q by (simp only:)
qed

lemma round53_abs_error:
  assumes "0 \<le> q"
  shows "\<bar>round53 q - q\<bar> \<le> q * unit_roundoff + 2 powi (- 1075)"
proof -
  have u: "0 \<le> q * unit_roundoff" using assms by (simp add: unit_roundoff_def)
  have p: "(0::rat) \<le> 2 powi (- 1075)" by simp
  consider "q = 0" | "0 < q" "q < 2 powi (- 1022)" | "2 powi (- 1022) \<le> q"
    using assms by fastforce
  then show ?thesis
  proof cases
    case 1
    then show ?thesis by (simp add: round53_zero)
  next
    case 2
    then have "\<bar>round53 q - q\<bar> \<le> 2 powi (- 1075)" by (rule round53_subnormal_error)
    then show ?thesis using u by linarith
  next
    case 3
    then have "\<bar>round53 q - q\<bar> \<le> q * unit_roundoff" by (rule round53_error_unit)
    then show ?thesis using p by linarith
  qed
qed

lemma scale_error:
  fixes x a :: rat
  assumes "0 \<le> x" "x < 2 ^ 1024" "0 \<le> a" "x * a < 2 ^ 31"
  shows "\<bar>round53 (x * round53 a) - x * a\<bar> < 1"
proof -
  define u where "u = unit_roundoff"
  define h :: rat where "h = 2 powi (- 1075)"
  define s where "s = round53 a"
  define p where "p = round53 (x * s)"
  have u0: "0 \<le> u" by (simp add: u_def unit_roundoff_def)
  have h0: "0 \<le> h" by (simp add: h_def)
  have s0: "0 \<le> s" unfolding s_def using assms(3) by (rule round53_nonneg)
  have xs0: "0 \<le> x * s" using assms(1) s0 by (rule mult_nonneg_nonneg)
  have e1: "\<bar>s - a\<bar> \<le> a * u + h"
    unfolding s_def u_def h_def using assms(3) by (rule round53_abs_error)
  have e2: "\<bar>p - x * s\<bar> \<le> x * s * u + h"
    unfolding p_def u_def h_def using xs0 by (rule round53_abs_error)
  have "x * \<bar>s - a\<bar> \<le> x * (a * u + h)" using e1 assms(1) by (rule mult_left_mono)
  moreover have "\<bar>x * s - x * a\<bar> = x * \<bar>s - a\<bar>"
    using assms(1) by (simp only: right_diff_distrib [symmetric] abs_mult abs_of_nonneg)
  ultimately have e3: "\<bar>x * s - x * a\<bar> \<le> x * (a * u + h)" by (simp only:)
  have "s \<le> a + (a * u + h)" using e1 by linarith
  then have "x * s \<le> x * (a + (a * u + h))" using assms(1) by (rule mult_left_mono)
  then have e4: "x * s * u \<le> x * (a + (a * u + h)) * u" using u0 by (rule mult_right_mono)
  have "\<bar>p - x * a\<bar> \<le> \<bar>p - x * s\<bar> + \<bar>x * s - x * a\<bar>" by linarith
  also have "\<dots> \<le> (x * (a + (a * u + h)) * u + h) + x * (a * u + h)"
    using e2 e3 e4 by linarith
  also have "\<dots> = x * a * (2 * u + u * u) + x * (h * (1 + u)) + h"
    by (simp add: algebra_simps)
  also have "\<dots> \<le> 2 ^ 31 * (2 * u + u * u) + 2 ^ 1024 * (h * (1 + u)) + h"
  proof -
    have "x * a * (2 * u + u * u) \<le> 2 ^ 31 * (2 * u + u * u)"
      using assms(4) u0 by (intro mult_right_mono) simp_all
    moreover have "x * (h * (1 + u)) \<le> 2 ^ 1024 * (h * (1 + u))"
      using assms(2) u0 h0 by (intro mult_right_mono) simp_all
    ultimately show ?thesis by linarith
  qed
  also have "\<dots> < 1"
  proof -
    have a: "(2::rat) ^ 31 * (2 * u + u * u) \<le> 1 / 4"
      by (simp add: u_def unit_roundoff_def)
    have "(2::rat) ^ 1024 * 2 powi (- 1075) = 2 powi (- 51)"
      using power_int_add [of "2::rat" 1024 "- 1075"] by simp
    then have b: "(2::rat) ^ 1024 * (h * (1 + u)) \<le> 1 / 4"
      by (simp add: h_def u_def unit_roundoff_def mult.assoc [symmetric])
    have "(2::rat) powi (- 1075) \<le> 2 powi (- 2)" by (rule powi_mono) simp
    then have c: "h \<le> 1 / 4" by (simp add: h_def)
    show ?thesis using a b c by linarith
  qed
  finally show ?thesis unfolding p_def s_def .
qed

lemma floor_near:
  fixes p q :: rat
  assumes "\<bar>p - q\<bar> < 1"
  shows "\<bar>\<lfloor>p\<rfloor> - \<lfloor>q\<rfloor>\<bar> \<le> 1"
proof -
  have "p \<le> q + 1" "q \<le> p + 1" using assms by linarith+
  then have "\<lfloor>p\<rfloor> \<le> \<lfloor>q + 1\<rfloor>" "\<lfloor>q\<rfloor> \<le> \<lfloor>p + 1\<rfloor>" by (simp_all only: floor_mono)
  then show ?thesis by simp
qed

lemma source_near_spec:
  assumes "js_mul x (js_div (of_nat n) w) = Some q"
    and "0 \<le> x" "0 < w" "x * of_nat n / w < 2 ^ 31"
  shows "\<bar>integerPart q - spec_src x n w\<bar> \<le> 1"
proof -
  let ?a = "rat_of_nat n / w"
  have a0: "0 \<le> ?a" using assms(3) by simp
  have f: "finite_double x" and q: "q = round53 (x * round53 ?a)"
    using assms(1,3) by (auto simp: js_mul_def js_div_def split: if_splits)
  have x: "x < 2 ^ 1024" using f assms(2) by (simp add: finite_double_def)
  have "x * ?a < 2 ^ 31" using assms(4) by simp
  with assms(2) x a0 have "\<bar>round53 (x * round53 ?a) - x * ?a\<bar> < 1" by (rule scale_error)
  then have "\<bar>\<lfloor>q\<rfloor> - \<lfloor>x * ?a\<rfloor>\<bar> \<le> 1" unfolding q by (rule floor_near)
  moreover have "0 \<le> q" unfolding q
    using assms(2) a0 by (intro round53_nonneg mult_nonneg_nonneg)
  ultimately show ?thesis by (simp add: integerPart_nonneg spec_src_def)
qed

text \<open>
  Claim C3, as amended. The quotient \<open>naturalWidth / rect.width\<close> and the product
  \<open>x * scaleX\<close> are each rounded to a double, and \<open>getImageData\<close> truncates the
  product towards zero: the sampler reads the buffer's pixel at column
  \<open>trunc(fl(displayX * fl(bufferWidth / displayWidth)))\<close> and the row computed likewise,
  whenever that pixel lies in the buffer. The column is
  \<open>floor(displayX * bufferWidth / displayWidth)\<close> when the rounded product is not
  negative and equals the exact one, as for a 100 by 100 buffer rendered at 50 by 50, where
  the click at (10, 10) reads pixel (20, 20); for a click at a display coordinate that is
  not negative it differs from that floor by at most one.
\<close>
theorem scale_mapping:
  assumes "isPicking st" and "valid_canvas cv"
    and "naturalWidth img = canvas.width cv" and "naturalHeight img = canvas.height cv"
    and "sourceX img e = Some qx" and "sourceY img e = Some qy"
    and "0 \<le> integerPart qx" and "integerPart qx < int (canvas.width cv)"
    and "0 \<le> integerPart qy" and "integerPart qy < int (canvas.height cv)"
    and "canvas.width cv < 2 ^ 31" and "canvas.height cv < 2 ^ 31"
  shows "getColorAtPoint st (Some cv) (Some img) e now =
     Inr (picked st
       (rgbHex (pixel_at cv (nat (integerPart qx)) (nat (integerPart qy)) ! 0)
               (pixel_at cv (nat (integerPart qx)) (nat (integerPart qy)) ! 1)
               (pixel_at cv (nat (integerPart qx)) (nat (integerPart qy)) ! 2))
       now)
   \<and> (0 \<le> qx \<longrightarrow> qx = displayX img e * of_nat (canvas.width cv) / displayWidth img \<longrightarrow>
        integerPart qx = spec_src (displayX img e) (canvas.width cv) (displayWidth img))
   \<and> (0 \<le> qy \<longrightarrow> qy = displayY img e * of_nat (canvas.height cv) / displayHeight img \<longrightarrow>
        integerPart qy = spec_src (displayY img e) (canvas.height cv) (displayHeight img))
   \<and> (0 \<le> displayX img e \<longrightarrow> 0 < displayWidth img \<longrightarrow>
        displayX img e * of_nat (canvas.width cv) / displayWidth img < 2 ^ 31 \<longrightarrow>
        \<bar>integerPart qx - spec_src (displayX img e) (canvas.width cv) (displayWidth img)\<bar> \<le> 1)
   \<and> (0 \<le> displayY img e \<longrightarrow> 0 < displayHeight img \<longrightarrow>
        displayY img e * of_nat (canvas.height cv) / displayHeight img < 2 ^ 31 \<longrightarrow>
        \<bar>integerPart qy - spec_src (displayY img e) (canvas.height cv) (displayHeight img)\<bar> \<le> 1)"
proof -
  have "integerPart q = spec_src x n w" if "0 \<le> q" "q = x * of_nat n / w" for q x n w
    using that by (simp add: integerPart_nonneg spec_src_def)
  moreover have "js_mul (displayX img e) (js_div (of_nat (canvas.width cv)) (displayWidth img)) = Some qx"
    using assms(5) by (simp only: sourceX_def assms(3))
  moreover have "js_mul (displayY img e) (js_div (of_nat (canvas.height cv)) (displayHeight img)) = Some qy"
    using assms(6) by (simp only: sourceY_def assms(4))
  ultimately show ?thesis
    using sample_inside [OF assms(1,2,5-12), of now]
      source_near_spec [of "displayX img e" "canvas.width cv" "displayWidth img" qx]
      source_near_spec [of "displayY img e" "canvas.height cv" "displayHeight img" qy]
    by blast
qed

theorem scale_mapping_witness:
  "isPicking picking \<and> valid_canvas canvas_100
   \<and> naturalWidth img_100_at_50 = canvas.width canvas_100
   \<and> naturalHeight img_100_at_50 = canvas.height canvas_100
   \<and> displayWidth img_100_at_50 = 50 \<and> displayHeight img_100_at_50 = 50
   \<and> displayX img_100_at_50 \<lparr>clientX = 15, clientY = 17\<rparr> = 10
   \<and> displayY img_100_at_50 \<lparr>clientX = 15, clientY = 17\<rparr> = 10
   \<and> sourceX img_100_at_50 \<lparr>clientX = 15, clientY = 17\<rparr> = Some 20
   \<and> sourceY img_100_at_50 \<lparr>clientX = 15, clientY = 17\<rparr> = Some 20
   \<and> integerPart 20 = 20
   \<and> spec_src 10 (canvas.width canvas_100) 50 = 20
   \<and> spec_src 10 (canvas.height canvas_100) 50 = 20
   \<and> \<bar>integerPart 20 - spec_src 10 (canvas.width canvas_100) 50\<bar> \<le> 1
   \<and> pixel_at canvas_100 20 20 = [144, 145, 146, 147]
   \<and> getColorAtPoint picking (Some canvas_100) (Some img_100_at_50) \<lparr>clientX = 15, clientY = 17\<rparr> 0 =
       Inr (picked picking ''#909192'' 0)"
proof -
  let ?e = "\<lparr>clientX = 15, clientY = 17\<rparr>"
  have h1: "isPicking picking" by (simp add: example_defs)
  have h2: "valid_canvas canvas_100" by (simp add: example_defs)
  have h3: "naturalWidth img_100_at_50 = canvas.width canvas_100" by (simp add: example_defs)
  have h4: "naturalHeight img_100_at_50 = canvas.height canvas_100" by (simp add: example_defs)
  have w: "displayWidth img_100_at_50 = 50" "displayHeight img_100_at_50 = 50"
    by (simp_all add: example_defs)
  have x: "displayX img_100_at_50 ?e = 10" "displayY img_100_at_50 ?e = 10"
    by (simp_all add: example_defs eval_double)
  have i: "integerPart 20 = 20" by (simp add: integerPart_def)
  have d: "canvas.width canvas_100 = 100" "canvas.height canvas_100 = 100"
    by (simp_all add: example_defs)
  have h7: "0 \<le> integerPart 20" "integerPart 20 < int (canvas.width canvas_100)"
    "0 \<le> integerPart 20" "integerPart 20 < int (canvas.height canvas_100)"
    unfolding i d by simp_all
  have h11: "canvas.width canvas_100 < 2 ^ 31" "canvas.height canvas_100 < 2 ^ 31"
    unfolding d by simp_all
  have q: "(0::rat) \<le> 20" "(20::rat) = 10 * of_nat 100 / 50" by simp_all
  have b: "(0::rat) \<le> 10" "(0::rat) < 50" "(10::rat) * of_nat 100 / 50 < 2 ^ 31" by simp_all
  note T = scale_mapping [OF h1 h2 h3 h4 source_100_at_50 h7 h11, of 0, unfolded w x d]
  have "getColorAtPoint picking (Some canvas_100) (Some img_100_at_50) ?e 0 =
      Inr (picked picking
        (rgbHex (pixel_at canvas_100 20 20 ! 0) (pixel_at canvas_100 20 20 ! 1)
           (pixel_at canvas_100 20 20 ! 2)) 0)"
    using T [THEN conjunct1] unfolding i by simp
  then have r: "getColorAtPoint picking (Some canvas_100) (Some img_100_at_50) ?e 0 =
      Inr (picked picking ''#909192'' 0)"
    by (simp add: pixel_at_canvas_100 rgbHex_909192)
  have "integerPart 20 = spec_src 10 100 50"
    using T [THEN conjunct2, THEN conjunct1] q by (elim impE) assumption+
  then have s: "spec_src 10 100 50 = 20" unfolding i by (rule sym)
  have n: "\<bar>integerPart 20 - spec_src 10 100 50\<bar> \<le> 1"
    using T [THEN conjunct2, THEN conjunct2, THEN conjunct2, THEN conjunct1] b
    by (elim impE) assumption+
  show ?thesis
    unfolding d by (intro conjI h1 h2 h3 [unfolded d] h4 [unfolded d] w x source_100_at_50 i s n
        pixel_at_canvas_100 r)
qed

text \<open>
  The claim as stated fails: on a buffer 30 pixels wide rendered 22 wide, the click at
  display coordinate 11 has \<open>floor(11 * 30 / 22) = 15\<close>, but the scale factor
  \<open>30 / 22\<close> is rounded down to a double and the product \<open>11 * scaleX\<close> is the double
  just below 15: the sampler reads column 14.
\<close>

theorem scale_mapping_counterexample:
  "displayX img_30_at_22 \<lparr>clientX = 11, clientY = 0\<rparr> = 11
   \<and> displayY img_30_at_22 \<lparr>clientX = 11, clientY = 0\<rparr> = 0
   \<and> displayWidth img_30_at_22 = 22 \<and> displayHeight img_30_at_22 = 1
   \<and> spec_src 11 (canvas.width canvas_30) 22 = 15
   \<and> spec_src 0 (canvas.height canvas_30) 1 = 0
   \<and> sourceX img_30_at_22 \<lparr>clientX = 11, clientY = 0\<rparr> = Some (15 - 1 / 2 ^ 49)
   \<and> integerPart (15 - 1 / 2 ^ 49) = 14
   \<and> getColorAtPoint picking (Some canvas_30) (Some img_30_at_22) \<lparr>clientX = 11, clientY = 0\<rparr> 0 =
       Inr (picked picking ''#38393a'' 0)
   \<and> rgbHex (pixel_at canvas_30 15 0 ! 0) (pixel_at canvas_30 15 0 ! 1) (pixel_at canvas_30 15 0 ! 2)
       = ''#3c3d3e''
   \<and> \<not> getColorAtPoint picking (Some canvas_30) (Some img_30_at_22) \<lparr>clientX = 11, clientY = 0\<rparr> 0 =
       Inr (picked picking
         (rgbHex (pixel_at canvas_30 15 0 ! 0) (pixel_at canvas_30 15 0 ! 1)
            (pixel_at canvas_30 15 0 ! 2)) 0)"
proof -
  let ?e = "\<lparr>clientX = 11, clientY = 0\<rparr>"
  have x: "displayX img_30_at_22 ?e = 11" "displayY img_30_at_22 ?e = 0"
    by (simp_all add: example_defs eval_double)
  have w: "displayWidth img_30_at_22 = 22" "displayHeight img_30_at_22 = 1"
    by (simp_all add: example_defs)
  have s: "spec_src 11 (canvas.width canvas_30) 22 = 15" "spec_src 0 (canvas.height canvas_30) 1 = 0"
    by (simp_all add: spec_src_def canvas_30_def)
  have "\<lfloor>15 - 1 / 2 ^ 49 :: rat\<rfloor> = 14" by (simp add: floor_unique)
  then have i: "integerPart (15 - 1 / 2 ^ 49) = 14" by (simp add: integerPart_def)
  have i0: "integerPart 0 = 0" by (simp add: integerPart_def)
  have h1: "isPicking picking" by (simp add: example_defs)
  have h2: "valid_canvas canvas_30" by (simp add: example_defs)
  have d: "canvas.width canvas_30 = 30" "canvas.height canvas_30 = 1"
    by (simp_all add: example_defs)
  have "getColorAtPoint picking (Some canvas_30) (Some img_30_at_22) ?e 0 =
     Inr (picked picking
       (rgbHex (pixel_at canvas_30 (nat (integerPart (15 - 1 / 2 ^ 49))) (nat (integerPart 0)) ! 0)
               (pixel_at canvas_30 (nat (integerPart (15 - 1 / 2 ^ 49))) (nat (integerPart 0)) ! 1)
               (pixel_at canvas_30 (nat (integerPart (15 - 1 / 2 ^ 49))) (nat (integerPart 0)) ! 2))
       0)"
    using h1 h2 source_30_at_22 by (rule sample_inside) (simp_all only: i i0 d, simp_all)
  then have g: "getColorAtPoint picking (Some canvas_30) (Some img_30_at_22) ?e 0 =
       Inr (picked picking ''#38393a'' 0)"
    unfolding i i0 by (simp add: pixel_at_canvas_30 rgbHex_38393a)
  have p: "rgbHex (pixel_at canvas_30 15 0 ! 0) (pixel_at canvas_30 15 0 ! 1)
      (pixel_at canvas_30 15 0 ! 2) = ''#3c3d3e''"
    by (simp add: pixel_at_canvas_30 rgbHex_3c3d3e)
  have "pickedColor (picked picking ''#38393a'' 0) \<noteq> pickedColor (picked picking ''#3c3d3e'' 0)"
    by (simp add: picked_def)
  then have "picked picking ''#38393a'' 0 \<noteq> picked picking ''#3c3d3e'' 0"
    by (rule contrapos_nn) simp
  then have n: "\<not> getColorAtPoint picking (Some canvas_30) (Some img_30_at_22) ?e 0 =
       Inr (picked picking
         (rgbHex (pixel_at canvas_30 15 0 ! 0) (pixel_at canvas_30 15 0 ! 1)
            (pixel_at canvas_30 15 0 ! 2)) 0)"
    unfolding p g by simp
  show ?thesis
    by (intro conjI x w s source_30_at_22(1) i g p n)
qed

text \<open>
  Claim C2. When the rendered size equals the buffer's size (both scale factors are 1) and
  the buffer's pixel (2, 3) is RGB(10, 20, 30), a click at display coordinate (2, 3) picks
  the colour \<open>#0a141e\<close>.
\<close>
theorem point_sample_scale_one:
  assumes "isPicking st" and "valid_canvas cv"
    and "2 < canvas.width cv" and "3 < canvas.height cv"
    and "take 3 (pixel_at cv 2 3) = [10, 20, 30]"
    and "naturalWidth img = canvas.width cv" and "naturalHeight img = canvas.height cv"
    and "displayWidth img = of_nat (canvas.width cv)"
    and "displayHeight img = of_nat (canvas.height cv)"
    and "displayX img e = 2" and "displayY img e = 3"
  shows "getColorAtPoint st (Some cv) (Some img) e now = Inr (picked st ''#0a141e'' now)"
proof -
  have len: "length (pixel_at cv 2 3) = 4"
    using assms(2,3,4) by (rule length_pixel_at)
  have nz: "rat_of_nat (canvas.width cv) \<noteq> 0" "rat_of_nat (canvas.height cv) \<noteq> 0"
    using assms(3,4) by simp_all
  have m: "js_mul 2 (Some 1) = Some 2" "js_mul 3 (Some 1) = Some 3"
    by (simp_all add: eval_double)
  have sc: "sourceX img e = Some 2" "sourceY img e = Some 3"
    unfolding sourceX_def sourceY_def assms(6-11)
    by (simp_all only: js_div_self [OF nz(1)] js_div_self [OF nz(2)] m)
  have l: "to_long (Some 2) = Inr 2" "to_long (Some 3) = Inr 3"
    by (simp_all add: to_long_def integerPart_def)
  have g: "getImageData cv (Some 2) (Some 3) = Inr (pixel_at cv 2 3)"
    using getImageData_inside [OF l, of cv] assms(3,4) by simp
  have "pixel_at cv 2 3 ! 0 = take 3 (pixel_at cv 2 3) ! 0"
    "pixel_at cv 2 3 ! 1 = take 3 (pixel_at cv 2 3) ! 1"
    "pixel_at cv 2 3 ! 2 = take 3 (pixel_at cv 2 3) ! 2"
    by simp_all
  then have px: "pixel_at cv 2 3 ! 0 = 10" "pixel_at cv 2 3 ! 1 = 20" "pixel_at cv 2 3 ! 2 = 30"
    unfolding assms(5) by simp_all
  have "rgbHex 10 20 30 = ''#0a141e''"
    by (simp add: rgbHex_digits hexDigit_def)
  then show ?thesis
    unfolding getColorAtPoint_picking [OF assms(1)] sc g
    by (simp only: sum.case hexString_pixel [OF len] px)
qed

theorem point_sample_scale_one_witness:
  "isPicking picking \<and> valid_canvas canvas_3x4
   \<and> 2 < canvas.width canvas_3x4 \<and> 3 < canvas.height canvas_3x4
   \<and> take 3 (pixel_at canvas_3x4 2 3) = [10, 20, 30]
   \<and> naturalWidth img_3x4 = canvas.width canvas_3x4
   \<and> naturalHeight img_3x4 = canvas.height canvas_3x4
   \<and> displayWidth img_3x4 = of_nat (canvas.width canvas_3x4)
   \<and> displayHeight img_3x4 = of_nat (canvas.height canvas_3x4)
   \<and> displayX img_3x4 \<lparr>clientX = 10, clientY = 19\<rparr> = 2
   \<and> displayY img_3x4 \<lparr>clientX = 10, clientY = 19\<rparr> = 3
   \<and> getColorAtPoint picking (Some canvas_3x4) (Some img_3x4) \<lparr>clientX = 10, clientY = 19\<rparr> 0 =
       Inr (picked picking ''#0a141e'' 0)"
proof -
  let ?e = "\<lparr>clientX = 10, clientY = 19\<rparr>"
  have h1: "isPicking picking" by (simp add: example_defs)
  have h2: "valid_canvas canvas_3x4" by (simp add: example_defs)
  have h3: "2 < canvas.width canvas_3x4" by (simp add: example_defs)
  have h4: "3 < canvas.height canvas_3x4" by (simp add: example_defs)
  have h5: "take 3 (pixel_at canvas_3x4 2 3) = [10, 20, 30]"
    by (simp add: example_defs pixel_at_def)
  have h6: "naturalWidth img_3x4 = canvas.width canvas_3x4" by (simp add: example_defs)
  have h7: "naturalHeight img_3x4 = canvas.height canvas_3x4" by (simp add: example_defs)
  have h8: "displayWidth img_3x4 = of_nat (canvas.width canvas_3x4)" by (simp add: example_defs)
  have h9: "displayHeight img_3x4 = of_nat (canvas.height canvas_3x4)" by (simp add: example_defs)
  have h10: "displayX img_3x4 ?e = 2" by (simp add: example_defs eval_double)
  have h11: "displayY img_3x4 ?e = 3" by (simp add: example_defs eval_double)
  note T = point_sample_scale_one [OF h1 h2 h3 h4 h5 h6 h7 h8 h9 h10 h11, of 0]
  show ?thesis
    by (intro conjI h1 h2 h3 h4 h5 h6 h7 h8 h9 h10 h11 T)
qed

lemma getImageData_cases:
  "getImageData cv sx sy = Inl TypeError
   \<or> (\<exists>x y. 0 \<le> x \<and> x < int (canvas.width cv) \<and> 0 \<le> y \<and> y < int (canvas.height cv)
         \<and> getImageData cv sx sy = Inr (pixel_at cv (nat x) (nat y)))
   \<or> getImageData cv sx sy = Inr [0, 0, 0, 0]"
proof (cases "to_long sx")
  case (Inl a)
  then show ?thesis using to_long_Inl [OF Inl] by (simp add: getImageData_def)
next
  case x: (Inr x)
  show ?thesis
  proof (cases "to_long sy")
    case (Inl a)
    then show ?thesis using x to_long_Inl [OF Inl] by (simp add: getImageData_def)
  next
    case y: (Inr y)
    show ?thesis
    proof (cases "0 \<le> x \<and> x < int (canvas.width cv) \<and> 0 \<le> y \<and> y < int (canvas.height cv)")
      case True
      then have "getImageData cv sx sy = Inr (pixel_at cv (nat x) (nat y))"
        using x y by (intro getImageData_inside) simp_all
      then show ?thesis using True by blast
    next
      case False
      with x y have "getImageData cv sx sy = Inr [0, 0, 0, 0]" by (rule getImageData_outside)
      then show ?thesis by simp
    qed
  qed
qed

lemma length_4_bytes: "length (px :: u8 list) = 4 \<Longrightarrow> px = [px ! 0, px ! 1, px ! 2, px ! 3]"
  by (simp add: list_eq_iff_nth_eq less_Suc_eq numeral_eq_Suc)

lemma sampler_reads_pixel:
  assumes "isPicking st" "valid_canvas cv"
  shows "(getImageData cv (sourceX img e) (sourceY img e) = Inl TypeError
          \<and> getColorAtPoint st (Some cv) (Some img) e now = Inl TypeError)
    \<or> (\<exists>r0 g0 b0 a0. getImageData cv (sourceX img e) (sourceY img e) = Inr [r0, g0, b0, a0]
          \<and> getColorAtPoint st (Some cv) (Some img) e now = Inr (picked st (rgbHex r0 g0 b0) now))"
proof -
  let ?sx = "sourceX img e" and ?sy = "sourceY img e"
  have pick: "\<exists>r0 g0 b0 a0. getImageData cv ?sx ?sy = Inr [r0, g0, b0, a0]
          \<and> getColorAtPoint st (Some cv) (Some img) e now = Inr (picked st (rgbHex r0 g0 b0) now)"
    if g: "getImageData cv ?sx ?sy = Inr px" and len: "length px = 4" for px
  proof -
    have "getColorAtPoint st (Some cv) (Some img) e now =
        Inr (picked st (rgbHex (px ! 0) (px ! 1) (px ! 2)) now)"
      unfolding getColorAtPoint_picking [OF assms(1)] g
      by (simp only: sum.case hexString_pixel [OF len])
    moreover have "getImageData cv ?sx ?sy = Inr [px ! 0, px ! 1, px ! 2, px ! 3]"
      using g length_4_bytes [OF len] by simp
    ultimately show ?thesis by blast
  qed
  consider (err) "getImageData cv ?sx ?sy = Inl TypeError"
    | (inside) x y where "0 \<le> x" "x < int (canvas.width cv)" "0 \<le> y" "y < int (canvas.height cv)"
        "getImageData cv ?sx ?sy = Inr (pixel_at cv (nat x) (nat y))"
    | (outside) "getImageData cv ?sx ?sy = Inr [0, 0, 0, 0]"
    using getImageData_cases [of cv ?sx ?sy] by blast
  then show ?thesis
  proof cases
    case err
    then show ?thesis by (simp add: getColorAtPoint_picking [OF assms(1)])
  next
    case inside
    then have "length (pixel_at cv (nat x) (nat y)) = 4"
      using assms(2) by (intro length_pixel_at) simp_all
    with inside(5) show ?thesis by (intro disjI2 pick)
  next
    case outside
    have "length [0, 0, 0, 0 :: u8] = 4" by simp
    with outside show ?thesis by (intro disjI2 pick)
  qed
qed

lemma sample_degenerate:
  assumes "isPicking st" "displayWidth img = 0 \<or> displayHeight img = 0"
  shows "getColorAtPoint st (Some cv) (Some img) e now = Inl TypeError"
  using assms(2) unfolding getColorAtPoint_picking [OF assms(1)] sourceX_def sourceY_def
  by (auto simp: js_scale_zero getImageData_nonfinite)

lemma sample_outside:
  assumes "isPicking st"
    and "to_long (sourceX img e) = Inr x" and "to_long (sourceY img e) = Inr y"
    and "\<not> (0 \<le> x \<and> x < int (canvas.width cv) \<and> 0 \<le> y \<and> y < int (canvas.height cv))"
  shows "getColorAtPoint st (Some cv) (Some img) e now = Inr (picked st ''#000000'' now)"
  unfolding getColorAtPoint_picking [OF assms(1)] getImageData_outside [OF assms(2,3,4)]
  by (simp only: sum.case black_hex)

lemma source_1x1:
  "sourceX img_1x1 \<lparr>clientX = 1, clientY = 1\<rparr> = Some 1"
  "sourceY img_1x1 \<lparr>clientX = 1, clientY = 1\<rparr> = Some 1"
  by (simp_all add: example_defs eval_double)

lemma to_long_1: "to_long (Some 1) = Inr 1"
  by (simp add: to_long_def integerPart_def)

lemma rgbHex_white: "rgbHex 255 255 255 = ''#ffffff''"
  by (simp add: rgbHex_digits hexDigit_def)

lemma round53_1_49: "round53 (1 / 49) = 5882252574524729 / 288230376151711744"
  using round53_nearest [of "1 / 49" "- 6" 5882252574524729] by simp

lemma round53_49_scale: "round53 (49 * (5882252574524729 / 288230376151711744)) = 1 - 1 / 2 ^ 53"
  using round53_nearest [of "49 * (5882252574524729 / 288230376151711744)" "- 1" 9007199254740991]
  by simp

lemma source_1x1_at_49:
  "sourceX img_1x1_at_49 \<lparr>clientX = 49, clientY = 49\<rparr> = Some (1 - 1 / 2 ^ 53)"
  "sourceY img_1x1_at_49 \<lparr>clientX = 49, clientY = 49\<rparr> = Some (1 - 1 / 2 ^ 53)"
proof -
  have a: "js_div 1 49 = Some (5882252574524729 / 288230376151711744)"
    unfolding js_div_def round53_1_49 by (simp add: finite_double_def)
  have b: "js_mul 49 (Some (5882252574524729 / 288230376151711744)) = Some (1 - 1 / 2 ^ 53)"
    unfolding js_mul_def option.case round53_49_scale by (simp add: finite_double_def)
  have x: "displayX img_1x1_at_49 \<lparr>clientX = 49, clientY = 49\<rparr> = 49"
    "displayY img_1x1_at_49 \<lparr>clientX = 49, clientY = 49\<rparr> = 49"
    by (simp_all add: example_defs eval_double)
  show "sourceX img_1x1_at_49 \<lparr>clientX = 49, clientY = 49\<rparr> = Some (1 - 1 / 2 ^ 53)"
    unfolding sourceX_def x using a b by (simp add: img_1x1_at_49_def displayWidth_def)
  show "sourceY img_1x1_at_49 \<lparr>clientX = 49, clientY = 49\<rparr> = Some (1 - 1 / 2 ^ 53)"
    unfolding sourceY_def x using a b by (simp add: img_1x1_at_49_def displayHeight_def)
qed

text \<open>
  The click at \<open>(displayWidth, displayHeight)\<close> is not always outside the buffer: on a
  1 by 1 white buffer rendered at 49 by 49 the scale factor \<open>1 / 49\<close> is rounded down and
  \<open>49 * scaleX\<close> is the double just below 1, so the click at (49, 49) reads pixel (0, 0).
\<close>

lemma corner_click_inside:
  "displayX img_1x1_at_49 \<lparr>clientX = 49, clientY = 49\<rparr> = displayWidth img_1x1_at_49
   \<and> displayY img_1x1_at_49 \<lparr>clientX = 49, clientY = 49\<rparr> = displayHeight img_1x1_at_49
   \<and> getColorAtPoint picking (Some canvas_white) (Some img_1x1_at_49) \<lparr>clientX = 49, clientY = 49\<rparr> 0
        = Inr (picked picking ''#ffffff'' 0)"
proof -
  let ?e = "\<lparr>clientX = 49, clientY = 49\<rparr>"
  have x: "displayX img_1x1_at_49 ?e = displayWidth img_1x1_at_49"
    "displayY img_1x1_at_49 ?e = displayHeight img_1x1_at_49"
    by (simp_all add: example_defs eval_double)
  have "\<lfloor>1 - 1 / 2 ^ 53 :: rat\<rfloor> = 0" by (simp add: floor_unique)
  then have i: "integerPart (1 - 1 / 2 ^ 53) = 0" by (simp add: integerPart_def)
  have h1: "isPicking picking" by (simp add: example_defs)
  have h2: "valid_canvas canvas_white" by (simp add: example_defs)
  have d: "canvas.width canvas_white = 1" "canvas.height canvas_white = 1"
    by (simp_all add: example_defs)
  have "getColorAtPoint picking (Some canvas_white) (Some img_1x1_at_49) ?e 0 =
     Inr (picked picking
       (rgbHex (pixel_at canvas_white (nat (integerPart (1 - 1 / 2 ^ 53))) (nat (integerPart (1 - 1 / 2 ^ 53))) ! 0)
               (pixel_at canvas_white (nat (integerPart (1 - 1 / 2 ^ 53))) (nat (integerPart (1 - 1 / 2 ^ 53))) ! 1)
               (pixel_at canvas_white (nat (integerPart (1 - 1 / 2 ^ 53))) (nat (integerPart (1 - 1 / 2 ^ 53))) ! 2))
       0)"
    using h1 h2 source_1x1_at_49 by (rule sample_inside) (simp_all only: i d, simp_all)
  then have g: "getColorAtPoint picking (Some canvas_white) (Some img_1x1_at_49) ?e 0 =
       Inr (picked picking ''#ffffff'' 0)"
    unfolding i by (simp add: pixel_at_def canvas_white_def rgbHex_white)
  show ?thesis by (intro conjI x g)
qed

lemma sample_corner_scale_one:
  assumes "isPicking st"
    and "naturalWidth img = canvas.width cv" and "naturalHeight img = canvas.height cv"
    and "displayWidth img = of_nat (canvas.width cv)"
    and "displayHeight img = of_nat (canvas.height cv)"
    and "0 < canvas.width cv" and "0 < canvas.height cv"
    and "canvas.width cv < 2 ^ 31" and "canvas.height cv < 2 ^ 31"
    and "displayX img e = displayWidth img" and "displayY img e = displayHeight img"
  shows "getColorAtPoint st (Some cv) (Some img) e now = Inr (picked st ''#000000'' now)"
proof -
  have src: "js_mul (of_nat n) (js_div (of_nat n) (of_nat n)) = Some (of_nat n)"
    and lng: "to_long (Some (of_nat n)) = Inr (int n)"
    if "0 < n" "n < 2 ^ 31" for n :: nat
  proof -
    have "n < 2 ^ 53" using that(2) by (rule less_trans) simp
    then have r: "round53 (of_nat n) = of_nat n" by (rule round53_of_nat)
    have "rat_of_nat n < of_nat (2 ^ 31)" using that(2) by (simp only: of_nat_less_iff)
    then have "\<bar>rat_of_nat n\<bar> < 2 ^ 1024" by simp
    then have f: "finite_double (of_nat n)" by (simp add: finite_double_def)
    have "rat_of_nat n \<noteq> 0" using that(1) by simp
    then have "js_div (of_nat n) (of_nat n) = Some 1" by (rule js_div_self)
    then show "js_mul (of_nat n) (js_div (of_nat n) (of_nat n)) = Some (of_nat n)"
      using f r by (simp add: js_mul_def)
    show "to_long (Some (of_nat n)) = Inr (int n)"
      using that(2) by (simp add: to_long_def integerPart_def)
  qed
  have x: "to_long (sourceX img e) = Inr (int (canvas.width cv))"
    unfolding sourceX_def assms(2,4,10) using src [OF assms(6,8)] lng [OF assms(6,8)] by simp
  have y: "to_long (sourceY img e) = Inr (int (canvas.height cv))"
    unfolding sourceY_def assms(3,5,11) using src [OF assms(7,9)] lng [OF assms(7,9)] by simp
  show ?thesis
    using assms(1) x y by (rule sample_outside) simp
qed

text \<open>
  Claim C4, as amended. The sampler neither clamps the source coordinate nor rejects it.
  When the rendered width or height is 0 the scale factor is not finite and the call fails
  with the \<open>TypeError\<close> of \<open>getImageData\<close>. Whenever the truncated source coordinate
  lies outside the buffer, no byte of the buffer is read and the colour picked is
  \<open>#000000\<close>, whatever the buffer holds; on a buffer rendered at its own size the click
  at \<open>(displayWidth, displayHeight)\<close> is such a click.
\<close>
theorem sampler_out_of_range:
  assumes "isPicking st"
  shows "(displayWidth img = 0 \<or> displayHeight img = 0 \<longrightarrow>
            getColorAtPoint st (Some cv) (Some img) e now = Inl TypeError)
    \<and> (to_long (sourceX img' e') = Inr x \<longrightarrow> to_long (sourceY img' e') = Inr y \<longrightarrow>
         \<not> (0 \<le> x \<and> x < int (canvas.width cv) \<and> 0 \<le> y \<and> y < int (canvas.height cv)) \<longrightarrow>
            getColorAtPoint st (Some cv) (Some img') e' now = Inr (picked st ''#000000'' now))
    \<and> (naturalWidth img' = canvas.width cv \<longrightarrow> naturalHeight img' = canvas.height cv \<longrightarrow>
         displayWidth img' = of_nat (canvas.width cv) \<longrightarrow>
         displayHeight img' = of_nat (canvas.height cv) \<longrightarrow>
         0 < canvas.width cv \<longrightarrow> 0 < canvas.height cv \<longrightarrow>
         canvas.width cv < 2 ^ 31 \<longrightarrow> canvas.height cv < 2 ^ 31 \<longrightarrow>
         displayX img' e' = displayWidth img' \<longrightarrow> displayY img' e' = displayHeight img' \<longrightarrow>
            getColorAtPoint st (Some cv) (Some img') e' now = Inr (picked st ''#000000'' now))"
  using sample_degenerate [OF assms, of img cv e now] sample_outside [OF assms, of img' e' x y cv now]
    sample_corner_scale_one [OF assms, of img' cv e' now]
  by blast

theorem sampler_out_of_range_witness:
  "isPicking picking
   \<and> displayWidth img_collapsed = 0
   \<and> getColorAtPoint picking (Some canvas_white) (Some img_collapsed) \<lparr>clientX = 0, clientY = 0\<rparr> 0
        = Inl TypeError
   \<and> displayX img_1x1 \<lparr>clientX = 1, clientY = 1\<rparr> = displayWidth img_1x1
   \<and> displayY img_1x1 \<lparr>clientX = 1, clientY = 1\<rparr> = displayHeight img_1x1
   \<and> to_long (sourceX img_1x1 \<lparr>clientX = 1, clientY = 1\<rparr>) = Inr 1
   \<and> to_long (sourceY img_1x1 \<lparr>clientX = 1, clientY = 1\<rparr>) = Inr 1
   \<and> \<not> 1 < int (canvas.width canvas_white)
   \<and> naturalWidth img_1x1 = canvas.width canvas_white
   \<and> naturalHeight img_1x1 = canvas.height canvas_white
   \<and> displayWidth img_1x1 = of_nat (canvas.width canvas_white)
   \<and> displayHeight img_1x1 = of_nat (canvas.height canvas_white)
   \<and> 0 < canvas.width canvas_white \<and> 0 < canvas.height canvas_white
   \<and> canvas.width canvas_white < 2 ^ 31 \<and> canvas.height canvas_white < 2 ^ 31
   \<and> getColorAtPoint picking (Some canvas_white) (Some img_1x1) \<lparr>clientX = 1, clientY = 1\<rparr> 0
        = Inr (picked picking ''#000000'' 0)"
proof -
  let ?e = "\<lparr>clientX = 1, clientY = 1\<rparr>"
  have h: "isPicking picking" by (simp add: example_defs)
  have a: "displayWidth img_collapsed = 0" by (simp add: example_defs)
  have b: "displayX img_1x1 ?e = displayWidth img_1x1" "displayY img_1x1 ?e = displayHeight img_1x1"
    by (simp_all add: example_defs eval_double)
  have l: "to_long (sourceX img_1x1 ?e) = Inr 1" "to_long (sourceY img_1x1 ?e) = Inr 1"
    unfolding source_1x1 by (rule to_long_1)+
  have n: "\<not> 1 < int (canvas.width canvas_white)" by (simp add: example_defs)
  then have o: "\<not> (0 \<le> (1::int) \<and> 1 < int (canvas.width canvas_white)
      \<and> 0 \<le> (1::int) \<and> 1 < int (canvas.height canvas_white))" by simp
  have s: "naturalWidth img_1x1 = canvas.width canvas_white"
    "naturalHeight img_1x1 = canvas.height canvas_white"
    "displayWidth img_1x1 = of_nat (canvas.width canvas_white)"
    "displayHeight img_1x1 = of_nat (canvas.height canvas_white)"
    "0 < canvas.width canvas_white" "0 < canvas.height canvas_white"
    "canvas.width canvas_white < 2 ^ 31" "canvas.height canvas_white < 2 ^ 31"
    by (simp_all add: example_defs)
  note T = sampler_out_of_range [OF h, of img_collapsed canvas_white "\<lparr>clientX = 0, clientY = 0\<rparr>" 0
        img_1x1 ?e 1 1]
  have c1: "getColorAtPoint picking (Some canvas_white) (Some img_collapsed) \<lparr>clientX = 0, clientY = 0\<rparr> 0
        = Inl TypeError"
    using T a by simp
  have c2: "getColorAtPoint picking (Some canvas_white) (Some img_1x1) ?e 0
        = Inr (picked picking ''#000000'' 0)"
    using T l o by (elim conjE) (erule (1) impE)+
  have c3: "getColorAtPoint picking (Some canvas_white) (Some img_1x1) ?e 0
        = Inr (picked picking ''#000000'' 0)"
    using T s b by (elim conjE) (erule (1) impE)+
  show ?thesis by (intro conjI h a c1 b l n s c3)
qed

text \<open>
  The claim as stated fails: on a 1 by 1 white buffer rendered at 1 by 1, the click at
  \<open>(displayWidth, displayHeight)\<close> is neither rejected nor clamped to the last pixel,
  whose colour is \<open>#ffffff\<close>; the colour picked is \<open>#000000\<close>.
\<close>

theorem clamp_or_reject_counterexample:
  "displayX img_1x1 \<lparr>clientX = 1, clientY = 1\<rparr> = displayWidth img_1x1
   \<and> displayY img_1x1 \<lparr>clientX = 1, clientY = 1\<rparr> = displayHeight img_1x1
   \<and> getColorAtPoint picking (Some canvas_white) (Some img_1x1) \<lparr>clientX = 1, clientY = 1\<rparr> 0
        = Inr (picked picking ''#000000'' 0)
   \<and> spec_sampleAt_clamped canvas_white 1 1 1 1 = ''#ffffff''
   \<and> \<not> spec_clamp_or_reject picking canvas_white img_1x1 \<lparr>clientX = 1, clientY = 1\<rparr> 0"
proof -
  let ?e = "\<lparr>clientX = 1, clientY = 1\<rparr>"
  have h: "isPicking picking" by (simp add: example_defs)
  have b: "displayX img_1x1 ?e = displayWidth img_1x1" "displayY img_1x1 ?e = displayHeight img_1x1"
    by (simp_all add: example_defs eval_double)
  have l: "to_long (sourceX img_1x1 ?e) = Inr 1" "to_long (sourceY img_1x1 ?e) = Inr 1"
    unfolding source_1x1 by (rule to_long_1)+
  have o: "\<not> (0 \<le> (1::int) \<and> 1 < int (canvas.width canvas_white)
      \<and> 0 \<le> (1::int) \<and> 1 < int (canvas.height canvas_white))" by (simp add: example_defs)
  have c: "getColorAtPoint picking (Some canvas_white) (Some img_1x1) ?e 0
        = Inr (picked picking ''#000000'' 0)"
    using h l o by (rule sample_outside)
  have "spec_src 1 (canvas.width canvas_white) 1 = 1" "spec_src 1 (canvas.height canvas_white) 1 = 1"
    by (simp_all add: spec_src_def example_defs)
  then have "spec_sampleAt_clamped canvas_white 1 1 1 1 = rgbHex 255 255 255"
    by (simp add: spec_sampleAt_clamped_def clamp_coord_def pixel_at_def canvas_white_def)
  then have d: "spec_sampleAt_clamped canvas_white 1 1 1 1 = ''#ffffff''"
    by (simp add: rgbHex_white)
  have a: "displayX img_1x1 ?e = 1" "displayY img_1x1 ?e = 1" "displayWidth img_1x1 = 1"
    "displayHeight img_1x1 = 1"
    by (simp_all add: example_defs eval_double)
  have "pickedColor (picked picking ''#000000'' 0) \<noteq> pickedColor (picked picking ''#ffffff'' 0)"
    by (simp add: picked_def)
  then have "picked picking ''#000000'' 0 \<noteq> picked picking ''#ffffff'' 0"
    by (rule contrapos_nn) simp
  then have n: "\<not> spec_clamp_or_reject picking canvas_white img_1x1 ?e 0"
    unfolding spec_clamp_or_reject_def a d c by simp
  show ?thesis by (intro conjI b c d n)
qed

section \<open>The key of a sample\<close>

lemma extract_keys_are_pixels:
  assumes "4 dvd length d" "c \<in> set (extractColors d)"
  shows "\<exists>p\<in>set (pixels d). Color.hex c = pixelHex p"
proof -
  have "c \<in> set (histogram d)"
    using assms(2) by (auto simp: extractColors_def set_js_sort dest: in_set_takeD)
  then have "Color.hex c \<in> set (map Color.hex (histogram d))" by simp
  then have "Color.hex c \<in> pixelHex ` set (pixels d)"
    unfolding hex_histogram using assms(1) by (simp add: scan_keys_pixels)
  then show ?thesis by auto
qed

lemma length_whole: "4 dvd length d \<Longrightarrow> length d = 4 * length (pixels d)"
  by (simp add: length_pixels)

lemma extract_ignores_alpha:
  assumes "4 dvd length d" "4 dvd length d'" "pixels d = pixels d'"
  shows "extractColors d = extractColors d'"
proof -
  have "scan_keys d = scan_keys d'" using assms by (simp add: scan_keys_pixels)
  moreover have "totalPixels d = totalPixels d'"
    using length_whole [OF assms(1)] length_whole [OF assms(2)] assms(3)
    by (simp add: totalPixels_def)
  ultimately have "histogram d = histogram d'" by (simp add: histogram_eq)
  then show ?thesis by (simp add: extractColors_def)
qed

lemma getImageData_canvas_3x4:
  "getImageData canvas_3x4 (sourceX img_3x4 \<lparr>clientX = 10, clientY = 19\<rparr>)
     (sourceY img_3x4 \<lparr>clientX = 10, clientY = 19\<rparr>) = Inr [10, 20, 30, 255]"
proof -
  have s: "sourceX img_3x4 \<lparr>clientX = 10, clientY = 19\<rparr> = Some 2"
    "sourceY img_3x4 \<lparr>clientX = 10, clientY = 19\<rparr> = Some 3"
    by (simp_all add: example_defs eval_double)
  have l: "to_long (Some 2) = Inr 2" "to_long (Some 3) = Inr 3"
    by (simp_all add: to_long_def integerPart_def)
  have "getImageData canvas_3x4 (Some 2) (Some 3) = Inr (pixel_at canvas_3x4 (nat 2) (nat 3))"
    using l by (rule getImageData_inside) (simp_all add: canvas_3x4_def)
  then show ?thesis unfolding s by (simp add: pixel_at_def canvas_3x4_def)
qed

text \<open>
  Claim C1. The key of an RGB sample is \<open>#\<close> followed by exactly six lower-case
  hexadecimal digits, two per channel, zero-padded; distinct samples have distinct keys.
  Every key the extractor returns is the key of a pixel of the buffer, and two buffers that
  differ only in their alpha bytes give the same result. The sampler either fails with the
  \<open>TypeError\<close> of \<open>getImageData\<close>, or \<open>getImageData\<close> returns the four bytes
  \<open>r, g, b, a\<close> of one pixel and the colour picked is the key of \<open>(r, g, b)\<close>, whatever
  \<open>a\<close> is.
\<close>
theorem hex_encoding:
  "rgbHex r g b =
     [CHR ''#'', hexDigit (unat r div 16), hexDigit (unat r mod 16),
      hexDigit (unat g div 16), hexDigit (unat g mod 16),
      hexDigit (unat b div 16), hexDigit (unat b mod 16)]
   \<and> list_all (\<lambda>c. c \<in> set ''0123456789abcdef'') (tl (rgbHex r g b))
   \<and> (rgbHex r g b = rgbHex r' g' b' \<longleftrightarrow> r = r' \<and> g = g' \<and> b = b')
   \<and> (4 dvd length d \<longrightarrow> (\<forall>c\<in>set (extractColors d). \<exists>p\<in>set (pixels d). Color.hex c = pixelHex p))
   \<and> (4 dvd length d \<longrightarrow> 4 dvd length d' \<longrightarrow> pixels d = pixels d' \<longrightarrow>
         extractColors d = extractColors d')
   \<and> (isPicking st \<longrightarrow> valid_canvas cv \<longrightarrow>
         (getImageData cv (sourceX img e) (sourceY img e) = Inl TypeError
          \<and> getColorAtPoint st (Some cv) (Some img) e now = Inl TypeError)
         \<or> (\<exists>r0 g0 b0 a0.
               getImageData cv (sourceX img e) (sourceY img e) = Inr [r0, g0, b0, a0]
               \<and> getColorAtPoint st (Some cv) (Some img) e now
                   = Inr (picked st (rgbHex r0 g0 b0) now)))"
proof -
  have lt: "unat w div 16 < 16" "unat w mod 16 < 16" for w :: u8
    using unat_u8_less [of w] by simp_all
  have in16: "hexDigit (unat w div 16) \<in> set ''0123456789abcdef''"
    "hexDigit (unat w mod 16) \<in> set ''0123456789abcdef''" for w :: u8
    by (rule hexDigit_in, rule lt)+
  have "list_all (\<lambda>c. c \<in> set ''0123456789abcdef'') (tl (rgbHex r g b))"
    unfolding rgbHex_digits by (simp only: list.sel list.pred_inject in16 simp_thms)
  then show ?thesis
    using rgbHex_digits [of r g b] rgbHex_inj [of r g b r' g' b']
      extract_keys_are_pixels [of d] extract_ignores_alpha [of d d']
      sampler_reads_pixel [of st cv img e now]
    by blast
qed

theorem hex_encoding_witness:
  "4 dvd length [255, 0, 0, 255, 0, 255, 0, 255 :: u8]
   \<and> 4 dvd length [255, 0, 0, 7, 0, 255, 0, 9 :: u8]
   \<and> pixels [255, 0, 0, 255, 0, 255, 0, 255] = pixels [255, 0, 0, 7, 0, 255, 0, 9]
   \<and> isPicking picking \<and> valid_canvas canvas_3x4
   \<and> rgbHex 10 20 30 = ''#0a141e''
   \<and> (\<exists>p. p \<in> set (pixels [255, 0, 0, 255, 0, 255, 0, 255])
          \<and> Color.hex (extractColors [255, 0, 0, 255, 0, 255, 0, 255] ! 0) = pixelHex p)
   \<and> extractColors [255, 0, 0, 255, 0, 255, 0, 255] = extractColors [255, 0, 0, 7, 0, 255, 0, 9]
   \<and> getImageData canvas_3x4 (sourceX img_3x4 \<lparr>clientX = 10, clientY = 19\<rparr>)
        (sourceY img_3x4 \<lparr>clientX = 10, clientY = 19\<rparr>) = Inr [10, 20, 30, 255]
   \<and> getColorAtPoint picking (Some canvas_3x4) (Some img_3x4) \<lparr>clientX = 10, clientY = 19\<rparr> 0
        = Inr (picked picking ''#0a141e'' 0)"
proof -
  let ?dA = "[255, 0, 0, 255, 0, 255, 0, 255] :: u8 list"
  let ?dB = "[255, 0, 0, 7, 0, 255, 0, 9] :: u8 list"
  let ?e = "\<lparr>clientX = 10, clientY = 19\<rparr>"
  have "length ?dA = 4 * 2" "length ?dB = 4 * 2" by simp_all
  then have h1: "4 dvd length ?dA" and h2: "4 dvd length ?dB" by (simp_all only: dvd_triv_left)
  have h3: "pixels ?dA = pixels ?dB" by simp
  have h4: "isPicking picking" by (simp add: example_defs)
  have h5: "valid_canvas canvas_3x4" by (simp add: example_defs)
  note T = hex_encoding [of 10 20 30 10 20 30 ?dA ?dB picking canvas_3x4 img_3x4 ?e 0]
  have c1: "rgbHex 10 20 30 = ''#0a141e''"
    using T by (simp add: hexDigit_def)
  have "\<forall>c\<in>set (extractColors ?dA). \<exists>p\<in>set (pixels ?dA). Color.hex c = pixelHex p"
    using T h1 by (elim conjE) (erule (1) impE)
  moreover have "extractColors ?dA ! 0 \<in> set (extractColors ?dA)"
    by (rule nth_mem) (simp add: length_extractColors eval_keys)
  ultimately have c2: "\<exists>p. p \<in> set (pixels ?dA) \<and> Color.hex (extractColors ?dA ! 0) = pixelHex p"
    by blast
  have c3: "extractColors ?dA = extractColors ?dB"
    using T h1 h2 h3 by (elim conjE) (erule (1) impE)+
  have "(getImageData canvas_3x4 (sourceX img_3x4 ?e) (sourceY img_3x4 ?e) = Inl TypeError
          \<and> getColorAtPoint picking (Some canvas_3x4) (Some img_3x4) ?e 0 = Inl TypeError)
        \<or> (\<exists>r0 g0 b0 a0.
              getImageData canvas_3x4 (sourceX img_3x4 ?e) (sourceY img_3x4 ?e) = Inr [r0, g0, b0, a0]
              \<and> getColorAtPoint picking (Some canvas_3x4) (Some img_3x4) ?e 0
                  = Inr (picked picking (rgbHex r0 g0 b0) 0))"
    using T h4 h5 by (elim conjE) (erule (1) impE)+
  then have c4: "getColorAtPoint picking (Some canvas_3x4) (Some img_3x4) ?e 0
        = Inr (picked picking ''#0a141e'' 0)"
    unfolding getImageData_canvas_3x4 using c1 by auto
  show ?thesis
    by (intro conjI h1 h2 h3 h4 h5 c1 c2 c3 getImageData_canvas_3x4 c4)
qed

end
